theory Spec2Isabelle
  imports Main "HOL-Library.Word" "HOL-Library.Multiset"
begin

unbundle bit_operations_syntax

section \<open>Data model\<close>

text \<open>
  The package \<open>cuckoo\<close> keeps a slice of buckets, a counter and the logarithm of the
  number of buckets. Go's \<open>uint\<close> is taken at 64 bits; \<open>Count\<close> and bucket indices are
  64-bit words, so \<open>Count++\<close> wraps as the machine addition does. \<open>BucketPow\<close> is only
  ever assigned and read (never incremented), so it is a natural number.

  A bucket is the fixed array \<open>[bucketSize]fingerprint\<close>; it is modelled by the list of
  its slots, whose length \<open>bucketSize\<close> is part of the invariant \<open>wf_filter\<close> below.
  A slot index always comes from \<open>rand.Intn(bucketSize)\<close> or from a \<open>range\<close> over the
  array, so it is never out of range in Go. A bucket index out of range of the slice
  is a run-time panic in Go: every operation that indexes \<open>Buckets\<close> returns an
  \<open>option\<close>, and \<open>None\<close> is that panic.
\<close>

type_synonym byte = "8 word"
type_synonym fingerprint = "8 word"
type_synonym bucket = "fingerprint list"
type_synonym uint = "64 word"

definition maxCuckooCount :: nat where
  "maxCuckooCount = 500"

text \<open>Modelled from the spec: the constants \<open>bucketSize\<close> (4 slots per bucket) and the
  sentinel empty fingerprint 0 are declared in a file that is not part of the sources.\<close>

definition bucketSize :: nat where
  "bucketSize = 4"

definition nullFp :: fingerprint where
  "nullFp = 0"

record Filter =
  Buckets :: "bucket list"
  Count :: uint
  BucketPow :: nat

section \<open>Fingerprint and hash layer\<close>

text \<open>
  The hash functions themselves are not part of the sources. They are parameters of
  the model: \<open>idxHash\<close> is the slice of the digest the primary index is taken from,
  \<open>fpHash\<close> the slice the fingerprint is taken from, and \<open>altHash\<close> the secondary hash
  of a fingerprint. Every theorem below holds for all three.
\<close>

record hashes =
  idxHash :: "byte list \<Rightarrow> uint"
  fpHash :: "byte list \<Rightarrow> fingerprint"
  altHash :: "fingerprint \<Rightarrow> uint"

text \<open>Modelled from the spec: \<open>getIndexAndFingerprint\<close> derives the fingerprint from one
  slice of the digest, remapped when it would be the sentinel 0 (here to 1), and the primary
  index from another slice, masked to \<open>[0, 2^bucketPow)\<close>.\<close>

definition getIndexAndFingerprint :: "hashes \<Rightarrow> byte list \<Rightarrow> nat \<Rightarrow> uint \<times> fingerprint" where
  "getIndexAndFingerprint H data bucketPow =
     (idxHash H data AND mask bucketPow,
      if fpHash H data = nullFp then 1 else fpHash H data)"

text \<open>Modelled from the spec: \<open>getAltIndex\<close> computes a secondary hash of the fingerprint
  alone, XORs it with the index and masks the result to \<open>[0, 2^bucketPow)\<close>.\<close>

definition getAltIndex :: "hashes \<Rightarrow> fingerprint \<Rightarrow> uint \<Rightarrow> nat \<Rightarrow> uint" where
  "getAltIndex H fp i bucketPow = (i XOR altHash H fp) AND mask bucketPow"

text \<open>Modelled from the spec: \<open>getNextPow2 n\<close> is the smallest power of two that is at least
  \<open>n\<close>. The search doubles a candidate starting from 1; the result is returned as a \<open>uint\<close>,
  so a power of two that does not fit into 64 bits is truncated (to 0).\<close>

function pow2_from :: "nat \<Rightarrow> nat \<Rightarrow> nat" where
  "pow2_from p n = (if n \<le> p \<or> p = 0 then p else pow2_from (2 * p) n)"
  by pat_completeness auto
termination
  by (relation "measure (\<lambda>(p, n). n - p)") auto

definition getNextPow2 :: "uint \<Rightarrow> uint" where
  "getNextPow2 n = word_of_nat (pow2_from 1 (unat n))"

text \<open>Go's \<open>bits.TrailingZeros\<close>: the number of trailing zero bits of a 64-bit word,
  and 64 for the word 0.\<close>

definition TrailingZeros :: "uint \<Rightarrow> nat" where
  "TrailingZeros x = length (takeWhile (\<lambda>n. \<not> bit x n) [0..<64])"

section \<open>Bucket\<close>

text \<open>Modelled from the spec: the four bucket operations live in a file that is not part of
  the sources. \<open>insert\<close> stores the fingerprint in the first sentinel-empty slot and fails on
  a full bucket; \<open>getFingerprintIndex\<close> returns the position of the fingerprint or -1;
  \<open>delete\<close> overwrites one occurrence (the first one met) with the sentinel; \<open>reset\<close>
  clears every slot.\<close>

fun insert_bucket :: "bucket \<Rightarrow> fingerprint \<Rightarrow> bool \<times> bucket" where
  "insert_bucket [] fp = (False, [])"
| "insert_bucket (tfp # b) fp =
     (if tfp = nullFp then (True, fp # b)
      else (case insert_bucket b fp of (ok, b') \<Rightarrow> (ok, tfp # b')))"

fun getFingerprintIndex :: "bucket \<Rightarrow> fingerprint \<Rightarrow> int" where
  "getFingerprintIndex [] fp = -1"
| "getFingerprintIndex (tfp # b) fp =
     (if tfp = fp then 0
      else (let k = getFingerprintIndex b fp in if k = -1 then -1 else k + 1))"

fun delete_bucket :: "bucket \<Rightarrow> fingerprint \<Rightarrow> bool \<times> bucket" where
  "delete_bucket [] fp = (False, [])"
| "delete_bucket (tfp # b) fp =
     (if tfp = fp then (True, nullFp # b)
      else (case delete_bucket b fp of (ok, b') \<Rightarrow> (ok, tfp # b')))"

definition reset_bucket :: "bucket \<Rightarrow> bucket" where
  "reset_bucket b = map (\<lambda>_. nullFp) b"

section \<open>Filter\<close>

text \<open>
  \<open>make([]bucket, capacity)\<close> allocates zeroed buckets. The Go runtime panics
  (\<open>makeslice: len out of range\<close>) when the slice would take more than \<open>maxAlloc\<close>
  bytes, which is \<open>2^48\<close> on 64-bit platforms; a bucket takes \<open>bucketSize\<close> bytes, one
  per fingerprint. \<open>NewFilter\<close> returns \<open>None\<close> for that panic. (Whether the machine
  has the memory for a smaller slice is outside the model.)
\<close>

definition maxAlloc :: nat where
  "maxAlloc = 2 ^ 48"

definition emptyBucket :: bucket where
  "emptyBucket = replicate bucketSize nullFp"

definition NewFilter :: "uint \<Rightarrow> Filter option" where
  "NewFilter capacity0 =
     (let capacity = getNextPow2 capacity0 div word_of_nat bucketSize;
          capacity = (if capacity = 0 then 1 else capacity)
      in if unat capacity * bucketSize > maxAlloc then None
         else (let buckets = replicate (unat capacity) emptyBucket
               in Some \<lparr>Buckets = buckets, Count = 0,
                         BucketPow = TrailingZeros capacity\<rparr>))"

definition CopyFilter :: "bucket list \<Rightarrow> uint \<Rightarrow> nat \<Rightarrow> Filter" where
  "CopyFilter buckets cnt bucketPow =
     \<lparr>Buckets = buckets, Count = cnt, BucketPow = bucketPow\<rparr>"

text \<open>\<open>cf.Buckets[i]\<close>: \<open>None\<close> is Go's index-out-of-range panic.\<close>

definition bucket_at :: "Filter \<Rightarrow> uint \<Rightarrow> bucket option" where
  "bucket_at cf i =
     (if unat i < length (Buckets cf) then Some (Buckets cf ! unat i) else None)"

definition Lookup :: "hashes \<Rightarrow> Filter \<Rightarrow> byte list \<Rightarrow> bool option" where
  "Lookup H cf data =
     (case getIndexAndFingerprint H data (BucketPow cf) of (i1, fp) \<Rightarrow>
        (case bucket_at cf i1 of
           None \<Rightarrow> None
         | Some b1 \<Rightarrow>
             if getFingerprintIndex b1 fp > -1 then Some True
             else (let i2 = getAltIndex H fp i1 (BucketPow cf) in
                   case bucket_at cf i2 of
                     None \<Rightarrow> None
                   | Some b2 \<Rightarrow> Some (getFingerprintIndex b2 fp > -1))))"

definition Reset :: "Filter \<Rightarrow> Filter" where
  "Reset cf = cf\<lparr>Buckets := map reset_bucket (Buckets cf), Count := 0\<rparr>"

text \<open>
  The process-wide random source is an explicit state: an infinite sequence of draws
  and the position of the next one. \<open>rand.Intn n\<close> reads the next draw modulo \<open>n\<close>.
\<close>

type_synonym rng = "(nat \<Rightarrow> nat) \<times> nat"

definition Intn :: "rng \<Rightarrow> nat \<Rightarrow> nat \<times> rng" where
  "Intn r n = (fst r (snd r) mod n, (fst r, Suc (snd r)))"

definition randi :: "rng \<Rightarrow> uint \<Rightarrow> uint \<Rightarrow> uint \<times> rng" where
  "randi r i1 i2 = (case Intn r 2 of (v, r') \<Rightarrow> (if v = 0 then i1 else i2, r'))"

definition insert_filter :: "Filter \<Rightarrow> fingerprint \<Rightarrow> uint \<Rightarrow> (bool \<times> Filter) option" where
  "insert_filter cf fp i =
     (case bucket_at cf i of
        None \<Rightarrow> None
      | Some b \<Rightarrow>
          (case insert_bucket b fp of (ok, b') \<Rightarrow>
             if ok then Some (True, cf\<lparr>Buckets := (Buckets cf)[unat i := b'],
                                         Count := Count cf + 1\<rparr>)
             else Some (False, cf)))"

text \<open>The loop of \<open>reinsert\<close>; the first argument is the number of iterations left.\<close>

fun reinsert_loop ::
  "hashes \<Rightarrow> nat \<Rightarrow> Filter \<Rightarrow> fingerprint \<Rightarrow> uint \<Rightarrow> rng \<Rightarrow> (bool \<times> Filter \<times> rng) option" where
  "reinsert_loop H 0 cf fp i r = Some (False, cf, r)"
| "reinsert_loop H (Suc k) cf fp i r =
     (case Intn r bucketSize of (j, r1) \<Rightarrow>
        (case bucket_at cf i of
           None \<Rightarrow> None
         | Some b \<Rightarrow>
             (let oldfp = fp;
                  fp1 = b ! j;
                  cf1 = cf\<lparr>Buckets := (Buckets cf)[unat i := b[j := oldfp]]\<rparr>;
                  i1 = getAltIndex H fp1 i (BucketPow cf1)
              in case insert_filter cf1 fp1 i1 of
                   None \<Rightarrow> None
                 | Some (ok, cf2) \<Rightarrow>
                     if ok then Some (True, cf2, r1)
                     else reinsert_loop H k cf2 fp1 i1 r1)))"

definition reinsert ::
  "hashes \<Rightarrow> Filter \<Rightarrow> fingerprint \<Rightarrow> uint \<Rightarrow> rng \<Rightarrow> (bool \<times> Filter \<times> rng) option" where
  "reinsert H cf fp i r = reinsert_loop H maxCuckooCount cf fp i r"

definition Insert ::
  "hashes \<Rightarrow> Filter \<Rightarrow> byte list \<Rightarrow> rng \<Rightarrow> (bool \<times> Filter \<times> rng) option" where
  "Insert H cf data r =
     (case getIndexAndFingerprint H data (BucketPow cf) of (i1, fp) \<Rightarrow>
        (case insert_filter cf fp i1 of
           None \<Rightarrow> None
         | Some (ok1, cf1) \<Rightarrow>
             if ok1 then Some (True, cf1, r)
             else (let i2 = getAltIndex H fp i1 (BucketPow cf1) in
                   case insert_filter cf1 fp i2 of
                     None \<Rightarrow> None
                   | Some (ok2, cf2) \<Rightarrow>
                       if ok2 then Some (True, cf2, r)
                       else (case randi r i1 i2 of (i, r1) \<Rightarrow> reinsert H cf2 fp i r1))))"

definition InsertUnique ::
  "hashes \<Rightarrow> Filter \<Rightarrow> byte list \<Rightarrow> rng \<Rightarrow> (bool \<times> Filter \<times> rng) option" where
  "InsertUnique H cf data r =
     (case Lookup H cf data of
        None \<Rightarrow> None
      | Some found \<Rightarrow> if found then Some (False, cf, r) else Insert H cf data r)"

definition delete_filter :: "Filter \<Rightarrow> fingerprint \<Rightarrow> uint \<Rightarrow> (bool \<times> Filter) option" where
  "delete_filter cf fp i =
     (case bucket_at cf i of
        None \<Rightarrow> None
      | Some b \<Rightarrow>
          (case delete_bucket b fp of (ok, b') \<Rightarrow>
             if ok then
               (let cf1 = cf\<lparr>Buckets := (Buckets cf)[unat i := b']\<rparr>
                in Some (True, if Count cf1 > 0 then cf1\<lparr>Count := Count cf1 - 1\<rparr> else cf1))
             else Some (False, cf)))"

definition Delete :: "hashes \<Rightarrow> Filter \<Rightarrow> byte list \<Rightarrow> (bool \<times> Filter) option" where
  "Delete H cf data =
     (case getIndexAndFingerprint H data (BucketPow cf) of (i1, fp) \<Rightarrow>
        (case delete_filter cf fp i1 of
           None \<Rightarrow> None
         | Some (ok1, cf1) \<Rightarrow>
             if ok1 then Some (True, cf1)
             else (let i2 = getAltIndex H fp i1 (BucketPow cf1) in delete_filter cf1 fp i2)))"

definition CountEntries :: "Filter \<Rightarrow> uint" where
  "CountEntries cf = Count cf"

section \<open>Encode and Decode\<close>

text \<open>\<open>Encode\<close> allocates \<open>len(cf.Buckets)*bucketSize\<close> zero bytes and writes slot \<open>j\<close> of
  bucket \<open>i\<close> at \<open>i * len(b) + j\<close>.\<close>

definition encode_bucket :: "nat \<Rightarrow> bucket \<Rightarrow> byte list \<Rightarrow> byte list" where
  "encode_bucket i b bytes =
     fold (\<lambda>j bs. bs[i * length b + j := b ! j]) [0..<length b] bytes"

definition Encode :: "Filter \<Rightarrow> byte list" where
  "Encode cf =
     fold (\<lambda>i bs. encode_bucket i (Buckets cf ! i) bs) [0..<length (Buckets cf)]
       (replicate (length (Buckets cf) * bucketSize) 0)"

datatype error = SizeMismatch nat nat | EmptyInput

text \<open>One step of the inner loop of \<open>Decode\<close>: a non-zero byte is stored and counted.\<close>

definition decode_slot ::
  "byte list \<Rightarrow> nat \<Rightarrow> nat \<Rightarrow> bucket list \<times> uint \<Rightarrow> bucket list \<times> uint" where
  "decode_slot bytes i j st =
     (case st of (buckets, cnt) \<Rightarrow>
        (let index = i * bucketSize + j
         in if bytes ! index \<noteq> 0
            then (buckets[i := (buckets ! i)[j := bytes ! index]], cnt + 1)
            else (buckets, cnt)))"

definition decode_loop :: "byte list \<Rightarrow> bucket list \<Rightarrow> bucket list \<times> uint" where
  "decode_loop bytes buckets =
     fold (\<lambda>i st. fold (decode_slot bytes i) [0..<bucketSize] st)
       [0..<length buckets] (buckets, 0)"

definition Decode :: "byte list \<Rightarrow> error + Filter" where
  "Decode bytes =
     (if length bytes mod bucketSize \<noteq> 0 then Inl (SizeMismatch bucketSize (length bytes))
      else if length bytes = 0 then Inl EmptyInput
      else (let buckets = replicate (length bytes div 4) emptyBucket
            in case decode_loop bytes buckets of (buckets1, cnt) \<Rightarrow>
                 Inr \<lparr>Buckets = buckets1, Count = cnt,
                      BucketPow = TrailingZeros (word_of_nat (length buckets1))\<rparr>))"

section \<open>Notions used by the properties\<close>

text \<open>The occupied slots of a list of slots, the multiset of fingerprints a filter stores
  and their number.\<close>

definition nonzero :: "fingerprint list \<Rightarrow> fingerprint list" where
  "nonzero xs = filter (\<lambda>x. x \<noteq> nullFp) xs"

definition stored :: "Filter \<Rightarrow> fingerprint multiset" where
  "stored cf = mset (nonzero (concat (Buckets cf)))"

definition occupied :: "Filter \<Rightarrow> nat" where
  "occupied cf = length (nonzero (concat (Buckets cf)))"

text \<open>The \<open>i\<close>-th group of \<open>bucketSize\<close> bytes of an encoding.\<close>

definition chunk :: "byte list \<Rightarrow> nat \<Rightarrow> bucket" where
  "chunk bytes i = map (\<lambda>j. bytes ! (i * bucketSize + j)) [0..<bucketSize]"

text \<open>The shape every filter built by \<open>NewFilter\<close> has: a power-of-two number of
  buckets of \<open>bucketSize\<close> slots each, few enough for every count to fit into a
  \<open>uint\<close>; and the invariant that \<open>Count\<close> is the number of occupied slots.\<close>

definition wf_shape :: "Filter \<Rightarrow> bool" where
  "wf_shape cf \<longleftrightarrow>
     length (Buckets cf) = 2 ^ BucketPow cf \<and> BucketPow cf \<le> 61 \<and>
     list_all (\<lambda>b. length b = bucketSize) (Buckets cf)"

definition wf_filter :: "Filter \<Rightarrow> bool" where
  "wf_filter cf \<longleftrightarrow> wf_shape cf \<and> unat (Count cf) = occupied cf"

text \<open>The calls that change a filter, and the filters reachable from \<open>NewFilter\<close> by
  any sequence of them, each with any state of the random source.\<close>

datatype call =
  CallInsert "byte list"
| CallInsertUnique "byte list"
| CallDelete "byte list"
| CallReset

fun apply_call :: "hashes \<Rightarrow> call \<Rightarrow> Filter \<Rightarrow> rng \<Rightarrow> (bool \<times> Filter \<times> rng) option" where
  "apply_call H (CallInsert d) cf r = Insert H cf d r"
| "apply_call H (CallInsertUnique d) cf r = InsertUnique H cf d r"
| "apply_call H (CallDelete d) cf r =
     (case Delete H cf d of None \<Rightarrow> None | Some (ok, cf') \<Rightarrow> Some (ok, cf', r))"
| "apply_call H CallReset cf r = Some (True, Reset cf, r)"

inductive reachable :: "hashes \<Rightarrow> Filter \<Rightarrow> bool" for H :: hashes where
  reachable_new: "NewFilter c = Some cf \<Longrightarrow> reachable H cf"
| reachable_call:
    "reachable H cf \<Longrightarrow> apply_call H c cf r = Some (ok, cf', r') \<Longrightarrow> reachable H cf'"

text \<open>The fingerprint of \<open>data\<close> occupies a slot of one of its two candidate buckets.\<close>

definition present :: "hashes \<Rightarrow> Filter \<Rightarrow> byte list \<Rightarrow> bool" where
  "present H cf data =
     (case getIndexAndFingerprint H data (BucketPow cf) of (i1, fp) \<Rightarrow>
        fp \<in> set (Buckets cf ! unat i1) \<or>
        fp \<in> set (Buckets cf ! unat (getAltIndex H fp i1 (BucketPow cf))))"

text \<open>\<open>x\<close> has the fingerprint of \<open>d\<close> and its primary bucket is one of the two candidate
  buckets of \<open>d\<close> (then both candidate buckets coincide).\<close>

definition collides :: "hashes \<Rightarrow> nat \<Rightarrow> byte list \<Rightarrow> byte list \<Rightarrow> bool" where
  "collides H bucketPow d x =
     (case getIndexAndFingerprint H d bucketPow of (i1, fp) \<Rightarrow>
      case getIndexAndFingerprint H x bucketPow of (j1, fq) \<Rightarrow>
        fq = fp \<and> (j1 = i1 \<or> j1 = getAltIndex H fp i1 bucketPow))"

text \<open>A call that cannot take the fingerprint of \<open>d\<close> away: an insertion that succeeds, or
  that fails but leaves the fingerprint of \<open>d\<close> in place (its eviction chain did not
  displace it out of existence); a deletion that fails, or that removes the fingerprint
  of an input that does not collide with \<open>d\<close>. A \<open>Reset\<close> never is.\<close>

fun keeps :: "hashes \<Rightarrow> byte list \<Rightarrow> call \<Rightarrow> Filter \<Rightarrow> bool \<Rightarrow> Filter \<Rightarrow> bool" where
  "keeps H d (CallInsert x) cf ok cf' = (ok \<or> Lookup H cf' d = Some True)"
| "keeps H d (CallInsertUnique x) cf ok cf' = (ok \<or> Lookup H cf' d = Some True)"
| "keeps H d (CallDelete x) cf ok cf' = (\<not> ok \<or> \<not> collides H (BucketPow cf) d x)"
| "keeps H d CallReset cf ok cf' = False"

inductive survives :: "hashes \<Rightarrow> byte list \<Rightarrow> Filter \<Rightarrow> Filter \<Rightarrow> bool"
  for H :: hashes and d :: "byte list" where
  survives_refl: "survives H d cf cf"
| survives_call:
    "survives H d cf cf1 \<Longrightarrow> apply_call H c cf1 r = Some (ok, cf2, r') \<Longrightarrow>
     keeps H d c cf1 ok cf2 \<Longrightarrow> survives H d cf cf2"

text \<open>Concrete instances: a random source whose draws are all 0 except the second one,
  which is 1; the one-bucket filter after inserting \<open>[1]\<close>, \<open>[2]\<close>, \<open>[3]\<close> and \<open>[4]\<close>
  into \<open>NewFilter 4\<close>; and the same filter after the failed insertion of \<open>[5]\<close>.\<close>

definition exampleRng :: rng where
  "exampleRng = (\<lambda>k. if k = 1 then 1 else 0, 0)"

definition fullFilter :: Filter where
  "fullFilter = \<lparr>Buckets = [[1, 2, 3, 4]], Count = 4, BucketPow = 0\<rparr>"

definition churnedFilter :: Filter where
  "churnedFilter = \<lparr>Buckets = [[2, 5, 3, 4]], Count = 4, BucketPow = 0\<rparr>"

text \<open>The fingerprint \<open>f\<close> occupies a slot of bucket \<open>a\<close> or of bucket \<open>b\<close>.\<close>

definition within :: "Filter \<Rightarrow> fingerprint \<Rightarrow> uint \<Rightarrow> uint \<Rightarrow> bool" where
  "within cf f a b \<longleftrightarrow> f \<in> set (Buckets cf ! unat a) \<or> f \<in> set (Buckets cf ! unat b)"

text \<open>A hash family for the concrete instances below: the index is taken from the
  length of the input, the fingerprint from its first byte, and the secondary hash
  multiplies the fingerprint by an odd constant.\<close>

definition exampleHashes :: hashes where
  "exampleHashes =
     \<lparr>idxHash = (\<lambda>d. word_of_nat (length d)),
      fpHash = (\<lambda>d. case d of [] \<Rightarrow> 0 | b # _ \<Rightarrow> b),
      altHash = (\<lambda>fp. ucast fp * 3)\<rparr>"

section \<open>Powers of two and trailing zeros\<close>

declare pow2_from.simps [simp del]

lemma pow2_from_pow2:
  "\<exists>b. a \<le> b \<and> pow2_from (2 ^ a) n = 2 ^ b \<and> n \<le> 2 ^ b \<and> (a < b \<longrightarrow> 2 ^ (b - 1) < n)"
proof (induction "2 ^ a :: nat" n arbitrary: a rule: pow2_from.induct)
  case (1 n)
  show ?case
  proof (cases "n \<le> 2 ^ a")
    case True
    then show ?thesis by (subst pow2_from.simps) auto
  next
    case False
    then have "\<not> (n \<le> 2 ^ a \<or> (2::nat) ^ a = 0)" by simp
    from 1(1)[OF this, of "Suc a"] obtain b where b: "Suc a \<le> b" "pow2_from (2 ^ Suc a) n = 2 ^ b"
      "n \<le> 2 ^ b" "Suc a < b \<longrightarrow> 2 ^ (b - 1) < n" by auto
    have "2 ^ (b - 1) < n"
    proof (cases "Suc a < b")
      case True with b show ?thesis by simp
    next
      case False2: False
      with b have "b = Suc a" by simp
      with False show ?thesis by simp
    qed
    with b False show ?thesis
      by (subst pow2_from.simps) (auto intro!: exI[of _ b])
  qed
qed

lemma tz_pow2: "k < 64 \<Longrightarrow> TrailingZeros (2 ^ k) = k"
proof -
  assume k: "k < 64"
  have "[0..<64] = [0..<k] @ [k..<64]"
    using k by (metis le_add_diff_inverse less_imp_le upt_add_eq_append zero_le)
  moreover have "[k..<64] = k # [Suc k..<64]" using k by (simp add: upt_conv_Cons)
  ultimately have e: "[0..<64] = [0..<k] @ k # [Suc k..<64]" by simp
  have "takeWhile (\<lambda>n. \<not> bit (2 ^ k :: uint) n) ([0..<k] @ k # [Suc k..<64]) = [0..<k]"
    using k by (subst takeWhile_append2) (auto simp: bit_simps)
  then show ?thesis unfolding TrailingZeros_def e by simp
qed

lemma unat_pow2: "k < 64 \<Longrightarrow> unat (2 ^ k :: uint) = 2 ^ k"
proof -
  assume k: "k < 64"
  have "(2::nat) ^ k < 2 ^ 64" using k by (rule_tac power_strict_increasing) auto
  then have "(2::nat) ^ k mod 2 ^ LENGTH(64) = 2 ^ k" by simp
  then have "unat (word_of_nat (2 ^ k) :: uint) = 2 ^ k"
    by (simp only: unat_of_nat)
  then show ?thesis by simp
qed

lemma pow2_div4_nat: "2 \<le> b \<Longrightarrow> (2::nat) ^ b div 4 = 2 ^ (b - 2)"
proof -
  assume "2 \<le> b"
  then obtain c where "b = c + 2" by (metis le_add_diff_inverse2)
  then show ?thesis by simp
qed

lemma pow2_div4: "2 \<le> b \<Longrightarrow> b < 64 \<Longrightarrow> (2 ^ b :: uint) div 4 = 2 ^ (b - 2)"
proof -
  assume b: "2 \<le> b" "b < 64"
  have "unat ((2 ^ b :: uint) div 4) = 2 ^ b div 4" using b by (simp add: unat_div unat_pow2)
  also have "\<dots> = 2 ^ (b - 2)" using b by (simp add: pow2_div4_nat)
  also have "\<dots> = unat (2 ^ (b - 2) :: uint)" using b by (simp add: unat_pow2)
  finally show ?thesis by (simp only: word_unat_eq_iff)
qed

lemma small_div4: "b < 2 \<Longrightarrow> (2 ^ b :: uint) div 4 = 0"
proof -
  assume "b < 2"
  then have "b = 0 \<or> b = 1" by auto
  then show ?thesis by (auto simp: word_div_def)
qed

lemma getNextPow2_shape:
  "\<exists>b. b \<le> 64 \<and> getNextPow2 c = 2 ^ b \<and> unat c \<le> 2 ^ b \<and> (0 < b \<longrightarrow> 2 ^ (b - 1) < unat c)"
proof -
  from pow2_from_pow2[of 0 "unat c"] obtain b where b: "pow2_from 1 (unat c) = 2 ^ b"
    "unat c \<le> 2 ^ b" "0 < b \<longrightarrow> 2 ^ (b - 1) < unat c" by auto
  have "b \<le> 64"
  proof (rule ccontr)
    assume "\<not> b \<le> 64"
    then have "64 \<le> b - 1" "0 < b" by auto
    then have "(2::nat) ^ 64 \<le> 2 ^ (b - 1)" by (intro power_increasing) auto
    moreover have "unat c < 2 ^ 64" using unsigned_less[of c] by simp
    ultimately show False using b(3) \<open>0 < b\<close> by simp
  qed
  moreover have "getNextPow2 c = 2 ^ b" unfolding getNextPow2_def b by simp
  ultimately show ?thesis using b by blast
qed

lemma NewFilter_pow2:
  assumes "k < 64"
    and "(if getNextPow2 c div 4 = 0 then 1 else getNextPow2 c div 4) = (2 ^ k :: uint)"
  shows "NewFilter c =
     (if 46 < k then None
      else Some \<lparr>Buckets = replicate (2 ^ k) emptyBucket, Count = 0, BucketPow = k\<rparr>)"
proof -
  have d: "word_of_nat bucketSize = (4 :: uint)" by (simp add: bucketSize_def)
  have nf: "NewFilter c =
     (if maxAlloc < unat (2 ^ k :: uint) * bucketSize then None
      else Some \<lparr>Buckets = replicate (unat (2 ^ k :: uint)) emptyBucket, Count = 0,
                  BucketPow = TrailingZeros (2 ^ k)\<rparr>)"
    unfolding NewFilter_def Let_def d assms(2) ..
  have a: "(2::nat) ^ k * bucketSize = 2 ^ (k + 2)"
    by (simp add: bucketSize_def)
  have b: "((2::nat) ^ 48 < 2 ^ (k + 2)) = (48 < k + 2)"
    by (rule power_strict_increasing_iff) simp
  have c: "(48 < k + 2) = (46 < k)" by auto
  have cmp: "(maxAlloc < 2 ^ k * bucketSize) = (46 < k)"
    unfolding maxAlloc_def a b c ..
  show ?thesis
    unfolding nf tz_pow2[OF assms(1)] unat_pow2[OF assms(1)] cmp ..
qed

lemma NewFilter_cases:
  "\<exists>k. k \<le> 61 \<and> (46 < k \<longleftrightarrow> 2 ^ 48 < unat c \<and> unat c \<le> 2 ^ 63) \<and>
     NewFilter c =
       (if 46 < k then None
        else Some \<lparr>Buckets = replicate (2 ^ k) emptyBucket, Count = 0, BucketPow = k\<rparr>)"
proof -
  from getNextPow2_shape[of c] obtain b where b: "b \<le> 64" "getNextPow2 c = 2 ^ b"
    "unat c \<le> 2 ^ b" "0 < b \<longrightarrow> 2 ^ (b - 1) < unat c" by blast
  consider "b = 64" | "b < 2" | "2 \<le> b" "b < 64" using b(1) by linarith
  then show ?thesis
  proof cases
    case 1
    then have "getNextPow2 c = 0" using b by simp
    then have "(if getNextPow2 c div 4 = 0 then 1 else getNextPow2 c div 4) = (2 ^ 0 :: uint)"
      by simp
    from NewFilter_pow2[OF _ this] have n: "NewFilter c =
        Some \<lparr>Buckets = replicate (2 ^ 0) emptyBucket, Count = 0, BucketPow = 0\<rparr>" by simp
    have "(2::nat) ^ 63 < unat c" using b(4) 1 by simp
    then have "\<not> (2 ^ 48 < unat c \<and> unat c \<le> 2 ^ 63)" by simp
    then show ?thesis using n by (intro exI[of _ 0]) simp
  next
    case 2
    then have "getNextPow2 c div 4 = 0" using b small_div4 by simp
    then have "(if getNextPow2 c div 4 = 0 then 1 else getNextPow2 c div 4) = (2 ^ 0 :: uint)"
      by simp
    from NewFilter_pow2[OF _ this] have n: "NewFilter c =
        Some \<lparr>Buckets = replicate (2 ^ 0) emptyBucket, Count = 0, BucketPow = 0\<rparr>" by simp
    have "(2::nat) ^ b \<le> 2 ^ 2" using 2 by (intro power_increasing) auto
    then have "unat c \<le> 4" using b(3) by simp
    then have "\<not> (2 ^ 48 < unat c \<and> unat c \<le> 2 ^ 63)" by simp
    then show ?thesis using n by (intro exI[of _ 0]) simp
  next
    case 3
    then have e: "getNextPow2 c div 4 = 2 ^ (b - 2)" using b pow2_div4 by simp
    have lt: "b - 2 < 64" using 3 by simp
    have nz: "(2 ^ (b - 2) :: uint) \<noteq> 0"
      using unat_pow2[OF lt] by (metis power_not_zero unat_0 zero_neq_numeral)
    have "(if getNextPow2 c div 4 = 0 then 1 else getNextPow2 c div 4) = (2 ^ (b - 2) :: uint)"
      using e nz by simp
    note n = NewFilter_pow2[OF lt this]
    have "46 < b - 2 \<longleftrightarrow> 2 ^ 48 < unat c \<and> unat c \<le> 2 ^ 63"
    proof
      assume "46 < b - 2"
      then have "48 \<le> b - 1" by simp
      then have "(2::nat) ^ 48 \<le> 2 ^ (b - 1)" by (intro power_increasing) auto
      then have "2 ^ 48 < unat c" using b(4) 3 by simp
      moreover have "(2::nat) ^ b \<le> 2 ^ 63" using 3 by (intro power_increasing) auto
      then have "unat c \<le> 2 ^ 63" using b(3) by simp
      ultimately show "2 ^ 48 < unat c \<and> unat c \<le> 2 ^ 63" by simp
    next
      assume "2 ^ 48 < unat c \<and> unat c \<le> 2 ^ 63"
      then have lt48: "(2::nat) ^ 48 < 2 ^ b" using b(3) by simp
      have "(1::nat) < 2" by simp
      from power_less_imp_less_exp[OF this lt48] have "48 < b" .
      then show "46 < b - 2" by simp
    qed
    moreover have "b - 2 \<le> 61" using 3 by simp
    ultimately show ?thesis using n by (intro exI[of _ "b - 2"]) simp
  qed
qed

lemma NewFilter_shape:
  "NewFilter c = Some cf \<Longrightarrow>
   \<exists>k. k \<le> 46 \<and> cf = \<lparr>Buckets = replicate (2 ^ k) emptyBucket, Count = 0, BucketPow = k\<rparr>"
  using NewFilter_cases[of c] by (auto split: if_splits)





section \<open>Decode and Encode as functions on lists\<close>

lemma upt4: "[0..<4] = [0, 1, 2, 3]"
  by (simp add: upt_conv_Cons)

lemma chunk4:
  "chunk bytes i =
     [bytes ! (i * 4), bytes ! (i * 4 + 1), bytes ! (i * 4 + 2), bytes ! (i * 4 + 3)]"
  by (simp add: chunk_def bucketSize_def upt4)

lemma decode_inner:
  assumes "i < length bs" "bs ! i = emptyBucket"
  shows "fold (decode_slot bytes i) [0..<bucketSize] (bs, c) =
     (bs[i := chunk bytes i], c + word_of_nat (length (nonzero (chunk bytes i))))"
proof -
  have e: "bs ! i = [0, 0, 0, 0]"
    using assms(2) by (simp add: emptyBucket_def bucketSize_def nullFp_def eval_nat_numeral)
  have u: "bs[i := [0,0,0,0]] = bs" using e by (metis list_update_id)
  show ?thesis
    using assms(1) e
    by (simp add: chunk4 bucketSize_def upt4 decode_slot_def Let_def u nonzero_def nullFp_def)
qed

lemma decode_outer:
  "m \<le> n \<Longrightarrow>
   fold (\<lambda>i st. fold (decode_slot bytes i) [0..<bucketSize] st) [0..<m]
       (replicate n emptyBucket, 0) =
     (map (chunk bytes) [0..<m] @ replicate (n - m) emptyBucket,
      word_of_nat (length (nonzero (concat (map (chunk bytes) [0..<m])))))"
proof (induction m)
  case 0
  then show ?case by (simp add: nonzero_def)
next
  case (Suc m)
  let ?bs = "map (chunk bytes) [0..<m] @ replicate (n - m) emptyBucket"
  have m: "m < n" using Suc.prems by simp
  have len: "m < length ?bs" using m by simp
  have at: "?bs ! m = emptyBucket" using m by (simp add: nth_append)
  have r: "replicate (n - m) emptyBucket = emptyBucket # replicate (n - Suc m) emptyBucket"
    using m by (metis Suc_diff_Suc replicate_Suc)
  have upd: "?bs[m := chunk bytes m] =
      map (chunk bytes) [0..<Suc m] @ replicate (n - Suc m) emptyBucket"
    by (subst r) (simp add: list_update_append)
  show ?case
    using Suc.IH m
    by (simp add: decode_inner[OF len at] upd nonzero_def)
qed

lemma chunk_take_drop:
  assumes "m * 4 + 4 \<le> length bytes"
  shows "chunk bytes m = take 4 (drop (m * 4) bytes)"
proof (intro nth_equalityI)
  show "length (chunk bytes m) = length (take 4 (drop (m * 4) bytes))"
    using assms by (simp add: chunk4)
next
  fix i assume "i < length (chunk bytes m)"
  then have "i < 4" by (simp add: chunk4)
  then consider "i = 0" | "i = 1" | "i = 2" | "i = 3" by linarith
  then show "chunk bytes m ! i = take 4 (drop (m * 4) bytes) ! i"
    using assms by cases (simp_all add: chunk4 add.commute)
qed

lemma concat_chunks:
  "m * 4 \<le> length bytes \<Longrightarrow> concat (map (chunk bytes) [0..<m]) = take (m * 4) bytes"
proof (induction m)
  case 0 then show ?case by simp
next
  case (Suc m)
  have c: "chunk bytes m = take 4 (drop (m * 4) bytes)"
    using Suc.prems by (intro chunk_take_drop) simp
  have "take (m * 4) bytes @ take 4 (drop (m * 4) bytes) = take (m * 4 + 4) bytes"
    by (simp add: take_add)
  then show ?case using Suc by (simp add: c add.commute)
qed

lemma Decode_ok:
  assumes "bytes \<noteq> []" "length bytes mod 4 = 0"
  shows "Decode bytes = Inr \<lparr>Buckets = map (chunk bytes) [0..<length bytes div 4],
      Count = word_of_nat (length (nonzero bytes)),
      BucketPow = TrailingZeros (word_of_nat (length bytes div 4))\<rparr>"
proof -
  let ?n = "length bytes div 4"
  have "?n * 4 = length bytes" using assms(2) by presburger
  then have "concat (map (chunk bytes) [0..<?n]) = bytes"
    using concat_chunks[of ?n bytes] by simp
  then show ?thesis
    using assms decode_outer[of ?n ?n bytes]
    by (simp add: Decode_def decode_loop_def bucketSize_def)
qed

lemma len4: "length (b::bucket) = 4 \<Longrightarrow> \<exists>w x y z. b = [w, x, y, z]"
  by (cases b; simp; cases "tl b"; simp; cases "tl (tl b)"; simp; cases "tl (tl (tl b))"; simp)

lemma encode_inner:
  assumes "length b = 4" "length xs = i * 4" "4 \<le> k"
  shows "encode_bucket i b (xs @ replicate k 0) = xs @ b @ replicate (k - 4) 0"
proof -
  from len4[OF assms(1)] obtain w x y z where b: "b = [w, x, y, z]" by blast
  obtain k' where "k = k' + 4" using assms(3) by (metis le_add_diff_inverse2)
  then have k: "k = Suc (Suc (Suc (Suc k')))" by simp
  show ?thesis
    using assms(2) by (simp add: encode_bucket_def b upt4 k list_update_append)
qed

lemma length_concat4:
  "\<forall>b \<in> set B. length b = 4 \<Longrightarrow> length (concat B) = length B * 4"
  by (induction B) auto

lemma encode_outer:
  assumes "\<forall>b \<in> set B. length b = 4"
  shows "m \<le> length B \<Longrightarrow>
    fold (\<lambda>i bs. encode_bucket i (B ! i) bs) [0..<m] (replicate (length B * 4) 0) =
      concat (take m B) @ replicate ((length B - m) * 4) 0"
proof (induction m)
  case 0 then show ?case by simp
next
  case (Suc m)
  have m: "m < length B" using Suc.prems by simp
  have l: "length (B ! m) = 4" using assms m by simp
  have "\<forall>b \<in> set (take m B). length b = 4" using assms by (meson in_set_takeD)
  then have lc: "length (concat (take m B)) = m * 4"
    using m by (simp add: length_concat4)
  have k: "4 \<le> (length B - m) * 4" using m by simp
  have e: "(length B - m) * 4 - 4 = (length B - Suc m) * 4" by (simp add: diff_mult_distrib)
  show ?case
    using Suc.IH m
    by (simp add: encode_inner[OF l lc k] e take_Suc_conv_app_nth)
qed

lemma Encode_concat:
  "\<forall>b \<in> set (Buckets cf). length b = 4 \<Longrightarrow> Encode cf = concat (Buckets cf)"
  using encode_outer[of "Buckets cf" "length (Buckets cf)"]
  by (simp add: Encode_def bucketSize_def)

section \<open>The alternate index\<close>

lemma getAltIndex_twice: "getAltIndex H fp (getAltIndex H fp i p) p = i AND mask p"
  unfolding getAltIndex_def
  by (simp add: bit_eq_iff bit_simps) blast

lemma masked_self: "unat (i::uint) < 2 ^ p \<Longrightarrow> i AND mask p = i"
proof -
  assume "unat i < 2 ^ p"
  then have "take_bit p (unat i) = unat i" by (simp add: take_bit_nat_eq_self_iff)
  then have "unat (take_bit p i) = unat i" by (simp add: unsigned_take_bit_eq)
  then have "take_bit p i = i" by (simp only: word_unat_eq_iff)
  then show ?thesis by (simp add: take_bit_eq_mask)
qed

lemma unat_masked: "unat ((i::uint) AND mask p) < 2 ^ p"
proof -
  have "unat (take_bit p i) = take_bit p (unat i)" by (simp add: unsigned_take_bit_eq)
  then show ?thesis by (simp add: take_bit_eq_mask[symmetric] del: take_bit_eq_mask)
qed

text \<open>
  Claim C3 (alternate-index symmetry): for every fingerprint, every \<open>bucketPow\<close> and every
  index \<open>i\<close> in \<open>[0, 2^bucketPow)\<close>, applying \<open>getAltIndex\<close> twice gives back \<open>i\<close>.
\<close>

theorem getAltIndex_involution:
  "unat i < 2 ^ bucketPow \<Longrightarrow>
   getAltIndex H fp (getAltIndex H fp i bucketPow) bucketPow = i"
  by (simp add: getAltIndex_twice masked_self)

theorem getAltIndex_involution_witness:
  "unat (5 :: uint) < 2 ^ 3 \<and>
   getAltIndex exampleHashes 7 5 3 = 0 \<and>
   getAltIndex exampleHashes 7 (getAltIndex exampleHashes 7 5 3) 3 = 5"
proof -
  have h: "unat (5 :: uint) < 2 ^ 3" by simp
  have "getAltIndex exampleHashes 7 5 3 = 0"
    by (simp add: getAltIndex_def exampleHashes_def mask_eq_exp_minus_1)
  then show ?thesis using h getAltIndex_involution[OF h, of exampleHashes 7] by simp
qed

section \<open>Construction\<close>

lemma emptyBucket_eq: "emptyBucket = [0, 0, 0, 0]"
  by (simp add: emptyBucket_def bucketSize_def nullFp_def eval_nat_numeral)



lemma NewFilter_4:
  "NewFilter 4 = Some \<lparr>Buckets = [[0, 0, 0, 0]], Count = 0, BucketPow = 0\<rparr>"
proof -
  have "getNextPow2 4 = 4" by (simp add: getNextPow2_def pow2_from.simps)
  then have "(if getNextPow2 4 div 4 = 0 then 1 else getNextPow2 4 div 4) = (2 ^ 0 :: uint)"
    by simp
  from NewFilter_pow2[OF _ this] show ?thesis by (simp add: emptyBucket_eq)
qed





lemma Decode_empty: "Decode [] = Inl EmptyInput"
  by (simp add: Decode_def bucketSize_def)

lemma Decode_mismatch:
  "length bytes mod 4 \<noteq> 0 \<Longrightarrow> Decode bytes = Inl (SizeMismatch 4 (length bytes))"
  by (simp add: Decode_def bucketSize_def)

theorem Decode_validation:
  "((\<exists>e. Decode bytes = Inl e) \<longleftrightarrow> bytes = [] \<or> length bytes mod 4 \<noteq> 0) \<and>
   (Decode bytes = Inl EmptyInput \<longleftrightarrow> bytes = []) \<and>
   (Decode bytes = Inl (SizeMismatch 4 (length bytes)) \<longleftrightarrow> length bytes mod 4 \<noteq> 0) \<and>
   ((\<exists>cf. Decode bytes = Inr cf) \<longleftrightarrow> bytes \<noteq> [] \<and> length bytes mod 4 = 0) \<and>
   Decode [] = Inl EmptyInput \<and>
   Decode [1, 2, 3] = Inl (SizeMismatch 4 3)"
proof -
  have c2: "Decode [1, 2, 3] = Inl (SizeMismatch 4 3)"
    using Decode_mismatch[of "[1, 2, 3]"] by simp
  consider (empty) "bytes = []" | (odd) "length bytes mod 4 \<noteq> 0"
    | (ok) "bytes \<noteq> []" "length bytes mod 4 = 0" by blast
  then show ?thesis
  proof cases
    case empty
    then show ?thesis using Decode_empty c2 by simp
  next
    case odd
    then have "bytes \<noteq> []" by auto
    then show ?thesis using odd Decode_mismatch[OF odd] Decode_empty c2 by simp
  next
    case ok
    from Decode_ok[OF ok] obtain cf where "Decode bytes = Inr cf" by blast
    then show ?thesis using ok Decode_empty c2 by simp
  qed
qed

theorem Decode_validation_witness:
  "(\<exists>cf. Decode [9, 0, 0, 7] = Inr cf) \<and> \<not> (\<exists>e. Decode [9, 0, 0, 7] = Inl e) \<and>
   Decode [] = Inl EmptyInput \<and> Decode [1, 2, 3] = Inl (SizeMismatch 4 3) \<and>
   Decode [1, 2, 3, 4, 5] = Inl (SizeMismatch 4 5)"
  using Decode_validation[of "[9, 0, 0, 7]"] Decode_validation[of "[1, 2, 3, 4, 5]"]
  by simp

lemma Decode_layout:
  assumes "bytes \<noteq> []" "length bytes mod 4 = 0"
  shows "\<exists>cf. Decode bytes = Inr cf \<and>
            length (Buckets cf) = length bytes div 4 \<and>
            BucketPow cf = TrailingZeros (word_of_nat (length bytes div 4)) \<and>
            unat (Count cf) = length (nonzero bytes) mod 2 ^ 64 \<and>
            Buckets cf = map (chunk bytes) [0..<length bytes div 4]"
  by (subst Decode_ok[OF assms]) (simp add: unat_of_nat)

lemma TrailingZeros_6: "TrailingZeros 6 = 1"
  by code_simp

lemma six_not_pow2: "(6::nat) \<noteq> 2 ^ k"
proof
  assume h: "(6::nat) = 2 ^ k"
  show False
  proof (cases "k < 3")
    case True
    then consider "k = 0" | "k = 1" | "k = 2" by linarith
    then show False using h by cases simp_all
  next
    case False
    then have "(2::nat) ^ 3 \<le> 2 ^ k" by (intro power_increasing) auto
    then show False using h by simp
  qed
qed

theorem Decode_accepts_non_power_of_two:
  "(bytes \<noteq> [] \<and> length bytes mod 4 = 0 \<longrightarrow>
      (\<exists>cf. Decode bytes = Inr cf \<and>
            length (Buckets cf) = length bytes div 4 \<and>
            BucketPow cf = TrailingZeros (word_of_nat (length (Buckets cf))) \<and>
            ((\<forall>k. length bytes div 4 \<noteq> 2 ^ k) \<longrightarrow> 2 ^ BucketPow cf \<noteq> length (Buckets cf)))) \<and>
   (NewFilter c = Some cf0 \<longrightarrow> 2 ^ BucketPow cf0 = length (Buckets cf0))"
proof (intro conjI impI)
  assume h: "bytes \<noteq> [] \<and> length bytes mod 4 = 0"
  then obtain cf where cf: "Decode bytes = Inr cf" "length (Buckets cf) = length bytes div 4"
    "BucketPow cf = TrailingZeros (word_of_nat (length bytes div 4))"
    using Decode_layout[of bytes] by auto
  have "(\<forall>k. length bytes div 4 \<noteq> 2 ^ k) \<longrightarrow> 2 ^ BucketPow cf \<noteq> length (Buckets cf)"
  proof
    assume a: "\<forall>k. length bytes div 4 \<noteq> 2 ^ k"
    show "2 ^ BucketPow cf \<noteq> length (Buckets cf)"
      using a[rule_format, of "BucketPow cf"] cf(2) by simp
  qed
  then show "\<exists>cf. Decode bytes = Inr cf \<and>
            length (Buckets cf) = length bytes div 4 \<and>
            BucketPow cf = TrailingZeros (word_of_nat (length (Buckets cf))) \<and>
            ((\<forall>k. length bytes div 4 \<noteq> 2 ^ k) \<longrightarrow> 2 ^ BucketPow cf \<noteq> length (Buckets cf))"
    using cf by (intro exI[of _ cf]) simp
next
  assume "NewFilter c = Some cf0"
  then show "2 ^ BucketPow cf0 = length (Buckets cf0)"
    using NewFilter_shape[of c cf0] by auto
qed

theorem Decode_accepts_non_power_of_two_witness:
  "replicate 24 (1::byte) \<noteq> [] \<and> length (replicate 24 (1::byte)) mod 4 = 0 \<and>
   (\<forall>k. length (replicate 24 (1::byte)) div 4 \<noteq> 2 ^ k) \<and>
   (\<exists>cf. Decode (replicate 24 1) = Inr cf \<and> length (Buckets cf) = 6 \<and>
         BucketPow cf = 1 \<and> 2 ^ BucketPow cf \<noteq> length (Buckets cf)) \<and>
   NewFilter 4 = Some \<lparr>Buckets = [[0, 0, 0, 0]], Count = 0, BucketPow = 0\<rparr> \<and>
   2 ^ BucketPow \<lparr>Buckets = [[0, 0, 0, 0]], Count = 0, BucketPow = 0\<rparr> =
     length (Buckets \<lparr>Buckets = [[0, 0, 0, 0]], Count = 0, BucketPow = 0\<rparr>)"
proof -
  note t = Decode_accepts_non_power_of_two[of "replicate 24 1" 4
      "\<lparr>Buckets = [[0, 0, 0, 0]], Count = 0, BucketPow = 0\<rparr>"]
  have h: "replicate 24 (1::byte) \<noteq> [] \<and> length (replicate 24 (1::byte)) mod 4 = 0" by simp
  have n: "\<forall>k. length (replicate 24 (1::byte)) div 4 \<noteq> 2 ^ k" using six_not_pow2 by simp
  from t h n
  obtain cf where cf: "Decode (replicate 24 1) = Inr cf"
    "length (Buckets cf) = length (replicate 24 (1::byte)) div 4"
    "BucketPow cf = TrailingZeros (word_of_nat (length (Buckets cf)))"
    "2 ^ BucketPow cf \<noteq> length (Buckets cf)" by blast
  have l: "length (Buckets cf) = 6" using cf(2) by simp
  have p: "BucketPow cf = 1" using cf(3) l TrailingZeros_6 by simp
  have x: "\<exists>cf. Decode (replicate 24 1) = Inr cf \<and> length (Buckets cf) = 6 \<and>
         BucketPow cf = 1 \<and> 2 ^ BucketPow cf \<noteq> length (Buckets cf)"
    using cf(1,4) l p by blast
  have y: "2 ^ BucketPow \<lparr>Buckets = [[0, 0, 0, 0]], Count = 0, BucketPow = 0\<rparr> =
     length (Buckets \<lparr>Buckets = [[0, 0, 0, 0]], Count = 0, BucketPow = 0\<rparr>)"
    using t NewFilter_4 by blast
  show ?thesis using h n x y NewFilter_4 by blast
qed

section \<open>Bucket operations\<close>

lemma insert_bucket_Cons:
  "insert_bucket (a # b) fp =
     (if a = nullFp then (True, fp # b)
      else (fst (insert_bucket b fp), a # snd (insert_bucket b fp)))"
  by (simp split: prod.splits)

lemma delete_bucket_Cons:
  "delete_bucket (a # b) fp =
     (if a = fp then (True, nullFp # b)
      else (fst (delete_bucket b fp), a # snd (delete_bucket b fp)))"
  by (simp split: prod.splits)

declare insert_bucket.simps(2) [simp del] delete_bucket.simps(2) [simp del]
declare insert_bucket_Cons [simp] delete_bucket_Cons [simp]

lemma insert_bucket_length: "length (snd (insert_bucket b fp)) = length b"
  by (induction b) (auto split: prod.splits)

lemma insert_bucket_ok: "fst (insert_bucket b fp) \<longleftrightarrow> nullFp \<in> set b"
  by (induction b) (auto split: prod.splits)

lemma insert_bucket_fail: "\<not> fst (insert_bucket b fp) \<Longrightarrow> snd (insert_bucket b fp) = b"
  by (induction b) (auto split: prod.splits)

lemma insert_bucket_update:
  "fst (insert_bucket b fp) \<Longrightarrow>
   \<exists>j < length b. b ! j = nullFp \<and> snd (insert_bucket b fp) = b[j := fp]"
proof (induction b)
  case Nil then show ?case by simp
next
  case (Cons a b)
  show ?case
  proof (cases "a = nullFp")
    case True
    then show ?thesis by (intro exI[of _ 0]) simp
  next
    case False
    then have "fst (insert_bucket b fp)" using Cons.prems by simp
    from Cons.IH[OF this] obtain j where "j < length b" "b ! j = nullFp"
      "snd (insert_bucket b fp) = b[j := fp]" by blast
    then show ?thesis using False
      by (intro exI[of _ "Suc j"]) simp
  qed
qed

lemma getFingerprintIndex_ge: "-1 \<le> getFingerprintIndex b fp"
  by (induction b) (auto simp: Let_def)

lemma getFingerprintIndex_found: "getFingerprintIndex b fp > -1 \<longleftrightarrow> fp \<in> set b"
proof (induction b)
  case Nil then show ?case by simp
next
  case (Cons a b)
  then show ?case using getFingerprintIndex_ge[of b fp] by (auto simp: Let_def)
qed

lemma delete_bucket_length: "length (snd (delete_bucket b fp)) = length b"
  by (induction b) (auto split: prod.splits)

lemma delete_bucket_ok: "fst (delete_bucket b fp) \<longleftrightarrow> fp \<in> set b"
  by (induction b) (auto split: prod.splits)

lemma delete_bucket_fail: "\<not> fst (delete_bucket b fp) \<Longrightarrow> snd (delete_bucket b fp) = b"
  by (induction b) (auto split: prod.splits)

lemma delete_bucket_update:
  "fst (delete_bucket b fp) \<Longrightarrow>
   \<exists>j < length b. b ! j = fp \<and> snd (delete_bucket b fp) = b[j := nullFp]"
proof (induction b)
  case Nil then show ?case by simp
next
  case (Cons a b)
  show ?case
  proof (cases "a = fp")
    case True
    then show ?thesis by (intro exI[of _ 0]) simp
  next
    case False
    then have "fst (delete_bucket b fp)" using Cons.prems by simp
    from Cons.IH[OF this] obtain j where "j < length b" "b ! j = fp"
      "snd (delete_bucket b fp) = b[j := nullFp]" by blast
    then show ?thesis using False
      by (intro exI[of _ "Suc j"]) simp
  qed
qed

section \<open>Stored fingerprints under updates\<close>

lemma nonzero_update:
  assumes "j < length b"
  shows "mset (nonzero (b[j := v])) + (if b ! j = nullFp then {#} else {#b ! j#}) =
   mset (nonzero b) + (if v = nullFp then {#} else {#v#})"
proof -
  have "b ! j \<in># mset b" using assms by simp
  then have "add_mset (b ! j) (mset b - {#b ! j#}) = mset b" by (simp add: insert_DiffM)
  then have e: "mset (b[j := v]) + {#b ! j#} = mset b + {#v#}"
    using assms by (simp add: mset_update)
  have "filter_mset (\<lambda>x. x \<noteq> nullFp) (mset (b[j := v]) + {#b ! j#}) =
        filter_mset (\<lambda>x. x \<noteq> nullFp) (mset b + {#v#})"
    by (simp only: e)
  then show ?thesis by (auto simp: nonzero_def split: if_splits)
qed

lemma nonzero_concat_update:
  "i < length B \<Longrightarrow>
   mset (nonzero (concat (B[i := b']))) + mset (nonzero (B ! i)) =
   mset (nonzero (concat B)) + mset (nonzero b')"
proof (induction B arbitrary: i)
  case Nil then show ?case by simp
next
  case (Cons a B)
  show ?case
  proof (cases i)
    case 0
    then show ?thesis by (simp add: nonzero_def)
  next
    case (Suc n)
    then have "n < length B" using Cons.prems by simp
    from Cons.IH[OF this] show ?thesis using Suc by (simp add: nonzero_def ac_simps)
  qed
qed

lemma stored_slot_update:
  assumes "i < length (Buckets cf)" "j < length (Buckets cf ! i)"
  shows "stored (cf\<lparr>Buckets := (Buckets cf)[i := (Buckets cf ! i)[j := v]]\<rparr>) +
           (if Buckets cf ! i ! j = nullFp then {#} else {#Buckets cf ! i ! j#}) =
         stored cf + (if v = nullFp then {#} else {#v#})"
proof -
  let ?b = "Buckets cf ! i"
  have "mset (nonzero (concat ((Buckets cf)[i := ?b[j := v]]))) + mset (nonzero ?b) +
          (if ?b ! j = nullFp then {#} else {#?b ! j#}) =
        mset (nonzero (concat (Buckets cf))) + (mset (nonzero (?b[j := v])) +
          (if ?b ! j = nullFp then {#} else {#?b ! j#}))"
    using nonzero_concat_update[OF assms(1), of "?b[j := v]"] by (simp add: ac_simps)
  also have "\<dots> = mset (nonzero (concat (Buckets cf))) + (mset (nonzero ?b) +
          (if v = nullFp then {#} else {#v#}))"
    using nonzero_update[OF assms(2), of v] by simp
  finally show ?thesis by (simp add: stored_def ac_simps)
qed

lemma occupied_stored: "occupied cf = size (stored cf)"
  by (simp add: occupied_def stored_def)

section \<open>Shape and indices\<close>

lemma wf_shape_nth: "wf_shape cf \<Longrightarrow> i < length (Buckets cf) \<Longrightarrow> length (Buckets cf ! i) = 4"
  by (simp add: wf_shape_def list_all_length bucketSize_def)

lemma wf_shape_index:
  "wf_shape cf \<Longrightarrow> unat ((x::uint) AND mask (BucketPow cf)) < length (Buckets cf)"
  using unat_masked[of x "BucketPow cf"] by (simp add: wf_shape_def)

lemma getAltIndex_range: "wf_shape cf \<Longrightarrow> unat (getAltIndex H fp i (BucketPow cf)) < length (Buckets cf)"
  by (simp add: getAltIndex_def wf_shape_index)

lemma getIndex_range:
  "wf_shape cf \<Longrightarrow> getIndexAndFingerprint H d (BucketPow cf) = (i1, fp) \<Longrightarrow>
   unat i1 < length (Buckets cf) \<and> fp \<noteq> nullFp \<and> i1 AND mask (BucketPow cf) = i1"
  by (auto simp: getIndexAndFingerprint_def wf_shape_index nullFp_def split: if_splits)

lemma wf_shape_update:
  "wf_shape cf \<Longrightarrow> length b = 4 \<Longrightarrow> wf_shape (cf\<lparr>Buckets := (Buckets cf)[i := b]\<rparr>)"
  using set_update_subset_insert[of "Buckets cf" i b]
  by (auto simp: wf_shape_def list_all_iff bucketSize_def)

lemma wf_shape_Count: "wf_shape (cf\<lparr>Count := c\<rparr>) = wf_shape cf"
  by (simp add: wf_shape_def)

lemma stored_Count: "stored (cf\<lparr>Count := c\<rparr>) = stored cf"
  by (simp add: stored_def)

lemma stored_bound: "wf_shape cf \<Longrightarrow> size (stored cf) \<le> 2 ^ 63"
proof -
  assume w: "wf_shape cf"
  have "\<forall>b \<in> set (Buckets cf). length b = 4"
    using w by (simp add: wf_shape_def list_all_iff bucketSize_def)
  then have l: "length (concat (Buckets cf)) = length (Buckets cf) * 4" by (rule length_concat4)
  have "size (stored cf) = length (nonzero (concat (Buckets cf)))"
    by (simp only: stored_def size_mset)
  also have "\<dots> \<le> length (concat (Buckets cf))"
    by (simp add: nonzero_def)
  also have "\<dots> = 2 ^ BucketPow cf * 2 ^ 2" using l w by (simp add: wf_shape_def)
  also have "\<dots> = 2 ^ (BucketPow cf + 2)" by (simp add: power_add)
  also have "\<dots> \<le> 2 ^ 63" using w by (intro power_increasing) (auto simp: wf_shape_def)
  finally show ?thesis .
qed

lemma unat_Suc_count:
  assumes "unat (c::uint) = n" "Suc n \<le> 2 ^ 63"
  shows "unat (c + 1) = Suc n"
proof -
  have "unat c + unat (1::uint) < 2 ^ LENGTH(64)" using assms by simp
  then have "unat (c + 1) = unat c + unat (1::uint)" by (simp only: unat_add_lem)
  then show ?thesis using assms by simp
qed

section \<open>The filter's insert and delete\<close>

lemma insert_filter_result:
  assumes "wf_shape cf" "unat i < length (Buckets cf)"
  shows "\<exists>ok cf'. insert_filter cf fp i = Some (ok, cf') \<and> wf_shape cf' \<and>
           BucketPow cf' = BucketPow cf \<and>
           (ok \<longrightarrow> Count cf' = Count cf + 1 \<and>
                  (\<exists>j < 4. Buckets cf ! unat i ! j = nullFp \<and>
                     Buckets cf' = (Buckets cf)[unat i := (Buckets cf ! unat i)[j := fp]])) \<and>
           (\<not> ok \<longrightarrow> cf' = cf \<and> nullFp \<notin> set (Buckets cf ! unat i))"
proof -
  let ?b = "Buckets cf ! unat i"
  have l: "length ?b = 4" using assms by (rule wf_shape_nth)
  show ?thesis
  proof (cases "fst (insert_bucket ?b fp)")
    case True
    from insert_bucket_update[OF True] obtain j where j: "j < length ?b" "?b ! j = nullFp"
      "snd (insert_bucket ?b fp) = ?b[j := fp]" by blast
    let ?cf' = "cf\<lparr>Buckets := (Buckets cf)[unat i := ?b[j := fp]], Count := Count cf + 1\<rparr>"
    have "insert_filter cf fp i = Some (True, ?cf')"
      using assms(2) True j(3) by (simp add: insert_filter_def bucket_at_def split_beta)
    moreover have "wf_shape ?cf'"
      using wf_shape_update[OF assms(1), of "?b[j := fp]" "unat i"] l
      by (simp add: wf_shape_def)
    ultimately show ?thesis using j l by (intro exI[of _ True] exI[of _ ?cf']) auto
  next
    case False
    then have "insert_filter cf fp i = Some (False, cf)"
      using assms(2) by (simp add: insert_filter_def bucket_at_def split_beta)
    then show ?thesis using False assms(1)
      by (intro exI[of _ False] exI[of _ cf]) (simp add: insert_bucket_ok)
  qed
qed

lemma stored_Buckets: "Buckets cf' = Buckets cf \<Longrightarrow> stored cf' = stored cf"
  by (simp add: stored_def)

lemma insert_filter_stored:
  assumes "wf_shape cf" "unat i < length (Buckets cf)" "fp \<noteq> nullFp"
    and "insert_filter cf fp i = Some (True, cf')"
  shows "stored cf' = stored cf + {#fp#}"
proof -
  from insert_filter_result[OF assms(1,2), of fp] assms(4)
  obtain j where j: "j < 4" "Buckets cf ! unat i ! j = nullFp"
    "Buckets cf' = (Buckets cf)[unat i := (Buckets cf ! unat i)[j := fp]]" by auto
  have l: "j < length (Buckets cf ! unat i)" using wf_shape_nth[OF assms(1,2)] j(1) by simp
  have "stored cf' = stored (cf\<lparr>Buckets := (Buckets cf)[unat i := (Buckets cf ! unat i)[j := fp]]\<rparr>)"
    using j(3) by (simp add: stored_def)
  then show ?thesis
    using stored_slot_update[OF assms(2) l, of fp] j(2) assms(3) by simp
qed

text \<open>One iteration of the eviction loop, started on a full bucket.\<close>

lemma reinsert_loop_step:
  assumes "wf_shape cf" "unat i < length (Buckets cf)"
    "nullFp \<notin> set (Buckets cf ! unat i)" "fp \<noteq> nullFp"
  shows "\<exists>j e cf1 i1 r1.
     j < 4 \<and> e = Buckets cf ! unat i ! j \<and> e \<noteq> nullFp \<and>
     cf1 = cf\<lparr>Buckets := (Buckets cf)[unat i := (Buckets cf ! unat i)[j := fp]]\<rparr> \<and>
     i1 = getAltIndex H e i (BucketPow cf) \<and>
     wf_shape cf1 \<and> unat i1 < length (Buckets cf1) \<and>
     stored cf1 + {#e#} = stored cf + {#fp#} \<and>
     ((\<exists>cf2. insert_filter cf1 e i1 = Some (True, cf2) \<and>
             reinsert_loop H (Suc k) cf fp i r = Some (True, cf2, r1)) \<or>
      (insert_filter cf1 e i1 = Some (False, cf1) \<and>
       nullFp \<notin> set (Buckets cf1 ! unat i1) \<and>
       reinsert_loop H (Suc k) cf fp i r = reinsert_loop H k cf1 e i1 r1))"
proof -
  let ?b = "Buckets cf ! unat i"
  let ?j = "fst r (snd r) mod 4"
  let ?r1 = "(fst r, Suc (snd r))"
  let ?e = "?b ! ?j"
  let ?cf1 = "cf\<lparr>Buckets := (Buckets cf)[unat i := ?b[?j := fp]]\<rparr>"
  let ?i1 = "getAltIndex H ?e i (BucketPow cf)"
  have j: "?j < 4" by simp
  have l: "length ?b = 4" using assms(1,2) by (rule wf_shape_nth)
  have jl: "?j < length ?b" using l by simp
  have "?e \<in> set ?b" using jl by (rule nth_mem)
  then have e: "?e \<noteq> nullFp" using assms(3) by metis
  have w1: "wf_shape ?cf1" using assms(1) l by (intro wf_shape_update) simp_all
  have bp: "BucketPow ?cf1 = BucketPow cf" by simp
  have r1: "unat ?i1 < length (Buckets ?cf1)"
    using getAltIndex_range[OF w1, of H ?e i] by simp
  have st: "stored ?cf1 + {#?e#} = stored cf + {#fp#}"
    using stored_slot_update[OF assms(2) jl, of fp] e assms(4) by simp
  from insert_filter_result[OF w1 r1, of ?e] obtain ok cf2 where
    ins: "insert_filter ?cf1 ?e ?i1 = Some (ok, cf2)"
    and fail: "\<not> ok \<longrightarrow> cf2 = ?cf1 \<and> nullFp \<notin> set (Buckets ?cf1 ! unat ?i1)" by blast
  have unf: "reinsert_loop H (Suc k) cf fp i r =
      (if ok then Some (True, cf2, ?r1) else reinsert_loop H k cf2 ?e ?i1 ?r1)"
    using assms(2) ins by (simp add: Intn_def bucket_at_def bucketSize_def Let_def)
  have "(\<exists>cf2. insert_filter ?cf1 ?e ?i1 = Some (True, cf2) \<and>
             reinsert_loop H (Suc k) cf fp i r = Some (True, cf2, ?r1)) \<or>
      (insert_filter ?cf1 ?e ?i1 = Some (False, ?cf1) \<and>
       nullFp \<notin> set (Buckets ?cf1 ! unat ?i1) \<and>
       reinsert_loop H (Suc k) cf fp i r = reinsert_loop H k ?cf1 ?e ?i1 ?r1)"
  proof (cases ok)
    case True
    then show ?thesis using ins unf by simp
  next
    case False
    then show ?thesis using ins unf fail by simp
  qed
  then show ?thesis using j e w1 r1 st
    by (intro exI[of _ ?j] exI[of _ ?e] exI[of _ ?cf1] exI[of _ ?i1] exI[of _ ?r1]) blast
qed

lemma insert_filter_Count_Buckets:
  "insert_filter cf fp i = Some (False, cf') \<Longrightarrow> cf' = cf"
  by (auto simp: insert_filter_def split: option.splits prod.splits if_splits)

lemma reinsert_loop_result:
  assumes "wf_shape cf" "unat i < length (Buckets cf)"
    "nullFp \<notin> set (Buckets cf ! unat i)" "fp \<noteq> nullFp"
  shows "\<exists>ok cf' r' h. reinsert_loop H k cf fp i r = Some (ok, cf', r') \<and> wf_shape cf' \<and>
     BucketPow cf' = BucketPow cf \<and> h \<noteq> nullFp \<and>
     (ok \<longrightarrow> Count cf' = Count cf + 1 \<and> stored cf' = stored cf + {#fp#}) \<and>
     (\<not> ok \<longrightarrow> Count cf' = Count cf \<and> stored cf' + {#h#} = stored cf + {#fp#})"
  using assms
proof (induction k arbitrary: cf fp i r)
  case 0
  then show ?case
    by (intro exI[of _ False] exI[of _ cf] exI[of _ r] exI[of _ fp]) simp
next
  case (Suc k)
  from reinsert_loop_step[OF Suc.prems, of H k r]
  obtain j e cf1 i1 r1 where s: "e \<noteq> nullFp"
    "cf1 = cf\<lparr>Buckets := (Buckets cf)[unat i := (Buckets cf ! unat i)[j := fp]]\<rparr>"
    "wf_shape cf1" "unat i1 < length (Buckets cf1)"
    "stored cf1 + {#e#} = stored cf + {#fp#}"
    and alt: "(\<exists>cf2. insert_filter cf1 e i1 = Some (True, cf2) \<and>
             reinsert_loop H (Suc k) cf fp i r = Some (True, cf2, r1)) \<or>
      (insert_filter cf1 e i1 = Some (False, cf1) \<and>
       nullFp \<notin> set (Buckets cf1 ! unat i1) \<and>
       reinsert_loop H (Suc k) cf fp i r = reinsert_loop H k cf1 e i1 r1)"
    by blast
  have c1: "Count cf1 = Count cf" "BucketPow cf1 = BucketPow cf" using s(2) by simp_all
  from alt show ?case
  proof
    assume "\<exists>cf2. insert_filter cf1 e i1 = Some (True, cf2) \<and>
             reinsert_loop H (Suc k) cf fp i r = Some (True, cf2, r1)"
    then obtain cf2 where cf2: "insert_filter cf1 e i1 = Some (True, cf2)"
      "reinsert_loop H (Suc k) cf fp i r = Some (True, cf2, r1)" by blast
    from insert_filter_result[OF s(3,4), of e] cf2(1)
    have w2: "wf_shape cf2" "BucketPow cf2 = BucketPow cf1" "Count cf2 = Count cf1 + 1" by auto
    have "stored cf2 = stored cf1 + {#e#}"
      using insert_filter_stored[OF s(3,4,1) cf2(1)] .
    then have "stored cf2 = stored cf + {#fp#}" using s(5) by simp
    then show ?thesis using cf2(2) w2 c1 Suc.prems(4)
      by (intro exI[of _ True] exI[of _ cf2] exI[of _ r1] exI[of _ fp]) simp
  next
    assume a: "insert_filter cf1 e i1 = Some (False, cf1) \<and>
       nullFp \<notin> set (Buckets cf1 ! unat i1) \<and>
       reinsert_loop H (Suc k) cf fp i r = reinsert_loop H k cf1 e i1 r1"
    from Suc.IH[OF s(3,4) _ s(1), of r1] a
    obtain ok cf' r' h where ih: "reinsert_loop H k cf1 e i1 r1 = Some (ok, cf', r')"
      "wf_shape cf'" "BucketPow cf' = BucketPow cf1" "h \<noteq> nullFp"
      "ok \<longrightarrow> Count cf' = Count cf1 + 1 \<and> stored cf' = stored cf1 + {#e#}"
      "\<not> ok \<longrightarrow> Count cf' = Count cf1 \<and> stored cf' + {#h#} = stored cf1 + {#e#}"
      by blast
    show ?thesis using ih a c1 s(5)
      by (intro exI[of _ ok] exI[of _ cf'] exI[of _ r'] exI[of _ h]) simp
  qed
qed

lemma Insert_result:
  assumes "wf_shape cf"
  shows "\<exists>ok cf' r' h. Insert H cf d r = Some (ok, cf', r') \<and> wf_shape cf' \<and>
     BucketPow cf' = BucketPow cf \<and> h \<noteq> nullFp \<and>
     (ok \<longrightarrow> Count cf' = Count cf + 1 \<and>
        stored cf' = stored cf + {#snd (getIndexAndFingerprint H d (BucketPow cf))#}) \<and>
     (\<not> ok \<longrightarrow> Count cf' = Count cf \<and>
        stored cf' + {#h#} = stored cf + {#snd (getIndexAndFingerprint H d (BucketPow cf))#})"
proof -
  obtain i1 fp where g: "getIndexAndFingerprint H d (BucketPow cf) = (i1, fp)"
    by (cases "getIndexAndFingerprint H d (BucketPow cf)")
  from getIndex_range[OF assms g] have r1: "unat i1 < length (Buckets cf)" and nz: "fp \<noteq> nullFp"
    by simp_all
  let ?i2 = "getAltIndex H fp i1 (BucketPow cf)"
  have r2: "unat ?i2 < length (Buckets cf)" using assms by (rule getAltIndex_range)
  from insert_filter_result[OF assms r1, of fp] obtain ok1 cf1 where
    i1: "insert_filter cf fp i1 = Some (ok1, cf1)" "wf_shape cf1" "BucketPow cf1 = BucketPow cf"
    "ok1 \<longrightarrow> Count cf1 = Count cf + 1"
    "\<not> ok1 \<longrightarrow> cf1 = cf \<and> nullFp \<notin> set (Buckets cf ! unat i1)" by blast
  show ?thesis
  proof (cases ok1)
    case True
    then have "Insert H cf d r = Some (True, cf1, r)" using g i1(1) by (simp add: Insert_def)
    moreover have "stored cf1 = stored cf + {#fp#}"
      using insert_filter_stored[OF assms r1 nz] i1(1) True by simp
    ultimately show ?thesis using i1 True g nz
      by (intro exI[of _ True] exI[of _ cf1] exI[of _ r] exI[of _ fp]) simp
  next
    case f1: False
    then have e1: "cf1 = cf" and full1: "nullFp \<notin> set (Buckets cf ! unat i1)" using i1(5) by simp_all
    from insert_filter_result[OF assms r2, of fp] obtain ok2 cf2 where
      i2: "insert_filter cf fp ?i2 = Some (ok2, cf2)" "wf_shape cf2" "BucketPow cf2 = BucketPow cf"
      "ok2 \<longrightarrow> Count cf2 = Count cf + 1"
      "\<not> ok2 \<longrightarrow> cf2 = cf \<and> nullFp \<notin> set (Buckets cf ! unat ?i2)" by blast
    show ?thesis
    proof (cases ok2)
      case True
      then have "Insert H cf d r = Some (True, cf2, r)"
        using g i1(1) f1 e1 i2(1) by (simp add: Insert_def)
      moreover have "stored cf2 = stored cf + {#fp#}"
        using insert_filter_stored[OF assms r2 nz] i2(1) True by simp
      ultimately show ?thesis using i2 True g nz
        by (intro exI[of _ True] exI[of _ cf2] exI[of _ r] exI[of _ fp]) simp
    next
      case f2: False
      then have e2: "cf2 = cf" and full2: "nullFp \<notin> set (Buckets cf ! unat ?i2)"
        using i2(5) by simp_all
      let ?i = "fst (randi r i1 ?i2)" and ?r1 = "snd (randi r i1 ?i2)"
      have c: "?i = i1 \<or> ?i = ?i2" by (simp add: randi_def split_beta)
      then have ri: "unat ?i < length (Buckets cf)" and fulli: "nullFp \<notin> set (Buckets cf ! unat ?i)"
        using r1 r2 full1 full2 by auto
      have unf: "Insert H cf d r = reinsert_loop H maxCuckooCount cf fp ?i ?r1"
        using g i1(1) f1 e1 i2(1) f2 e2 by (simp add: Insert_def reinsert_def split_beta Let_def)
      from reinsert_loop_result[OF assms ri fulli nz, of H maxCuckooCount ?r1]
      show ?thesis unfolding unf g by simp
    qed
  qed
qed

lemma delete_filter_result:
  assumes "wf_shape cf" "unat i < length (Buckets cf)"
  shows "\<exists>ok cf'. delete_filter cf fp i = Some (ok, cf') \<and> wf_shape cf' \<and>
           BucketPow cf' = BucketPow cf \<and>
           (ok \<longleftrightarrow> fp \<in> set (Buckets cf ! unat i)) \<and>
           (ok \<longrightarrow> Count cf' = (if Count cf > 0 then Count cf - 1 else Count cf) \<and>
                  (\<exists>j < 4. Buckets cf ! unat i ! j = fp \<and>
                     Buckets cf' = (Buckets cf)[unat i := (Buckets cf ! unat i)[j := nullFp]])) \<and>
           (\<not> ok \<longrightarrow> cf' = cf)"
proof -
  let ?b = "Buckets cf ! unat i"
  have l: "length ?b = 4" using assms by (rule wf_shape_nth)
  show ?thesis
  proof (cases "fst (delete_bucket ?b fp)")
    case True
    from delete_bucket_update[OF True] obtain j where j: "j < length ?b" "?b ! j = fp"
      "snd (delete_bucket ?b fp) = ?b[j := nullFp]" by blast
    let ?cf1 = "cf\<lparr>Buckets := (Buckets cf)[unat i := ?b[j := nullFp]]\<rparr>"
    let ?cf' = "if Count cf > 0 then ?cf1\<lparr>Count := Count cf - 1\<rparr> else ?cf1"
    have "delete_filter cf fp i = Some (True, ?cf')"
      using assms(2) True j(3) by (simp add: delete_filter_def bucket_at_def split_beta Let_def)
    moreover have "wf_shape ?cf1"
      using wf_shape_update[OF assms(1), of "?b[j := nullFp]" "unat i"] l by simp
    then have "wf_shape ?cf'" by (simp add: wf_shape_def)
    moreover have "fp \<in> set ?b" using True by (simp add: delete_bucket_ok)
    ultimately show ?thesis using j l by (intro exI[of _ True] exI[of _ ?cf']) auto
  next
    case False
    then have "delete_filter cf fp i = Some (False, cf)"
      using assms(2) by (simp add: delete_filter_def bucket_at_def split_beta)
    then show ?thesis using False assms(1)
      by (intro exI[of _ False] exI[of _ cf]) (simp add: delete_bucket_ok)
  qed
qed

lemma delete_filter_stored:
  assumes "wf_shape cf" "unat i < length (Buckets cf)" "fp \<noteq> nullFp"
    and "delete_filter cf fp i = Some (True, cf')"
  shows "stored cf' + {#fp#} = stored cf"
proof -
  from delete_filter_result[OF assms(1,2), of fp] assms(4)
  obtain j where j: "j < 4" "Buckets cf ! unat i ! j = fp"
    "Buckets cf' = (Buckets cf)[unat i := (Buckets cf ! unat i)[j := nullFp]]" by auto
  have l: "j < length (Buckets cf ! unat i)" using wf_shape_nth[OF assms(1,2)] j(1) by simp
  have "stored cf' =
      stored (cf\<lparr>Buckets := (Buckets cf)[unat i := (Buckets cf ! unat i)[j := nullFp]]\<rparr>)"
    using j(3) by (simp add: stored_def)
  then show ?thesis
    using stored_slot_update[OF assms(2) l, of nullFp] j(2) assms(3) by simp
qed

lemma Lookup_present: "wf_shape cf \<Longrightarrow> Lookup H cf d = Some (present H cf d)"
proof -
  assume w: "wf_shape cf"
  obtain i1 fp where g: "getIndexAndFingerprint H d (BucketPow cf) = (i1, fp)"
    by (cases "getIndexAndFingerprint H d (BucketPow cf)")
  from getIndex_range[OF w g] have r1: "unat i1 < length (Buckets cf)" by simp
  have r2: "unat (getAltIndex H fp i1 (BucketPow cf)) < length (Buckets cf)"
    using w by (rule getAltIndex_range)
  show ?thesis
    using g r1 r2
    by (simp add: Lookup_def present_def bucket_at_def Let_def getFingerprintIndex_found)
qed

lemma Delete_result:
  assumes "wf_shape cf" "getIndexAndFingerprint H d (BucketPow cf) = (i1, fp)"
  shows "\<exists>ok cf'. Delete H cf d = Some (ok, cf') \<and> wf_shape cf' \<and>
     BucketPow cf' = BucketPow cf \<and> (ok \<longleftrightarrow> present H cf d) \<and>
     (ok \<longrightarrow> Count cf' = (if Count cf > 0 then Count cf - 1 else Count cf) \<and>
        stored cf' + {#fp#} = stored cf \<and>
        (\<exists>i j. (i = i1 \<or> i = getAltIndex H fp i1 (BucketPow cf)) \<and> j < 4 \<and>
           Buckets cf ! unat i ! j = fp \<and>
           Buckets cf' = (Buckets cf)[unat i := (Buckets cf ! unat i)[j := nullFp]])) \<and>
     (\<not> ok \<longrightarrow> cf' = cf)"
proof -
  from getIndex_range[OF assms] have r1: "unat i1 < length (Buckets cf)" and nz: "fp \<noteq> nullFp"
    by simp_all
  let ?i2 = "getAltIndex H fp i1 (BucketPow cf)"
  have r2: "unat ?i2 < length (Buckets cf)" using assms(1) by (rule getAltIndex_range)
  have p: "present H cf d \<longleftrightarrow> fp \<in> set (Buckets cf ! unat i1) \<or> fp \<in> set (Buckets cf ! unat ?i2)"
    using assms(2) by (simp add: present_def)
  from delete_filter_result[OF assms(1) r1, of fp] obtain ok1 cf1 where
    d1: "delete_filter cf fp i1 = Some (ok1, cf1)" "wf_shape cf1" "BucketPow cf1 = BucketPow cf"
    "ok1 \<longleftrightarrow> fp \<in> set (Buckets cf ! unat i1)"
    "ok1 \<longrightarrow> Count cf1 = (if Count cf > 0 then Count cf - 1 else Count cf) \<and>
                  (\<exists>j < 4. Buckets cf ! unat i1 ! j = fp \<and>
                     Buckets cf1 = (Buckets cf)[unat i1 := (Buckets cf ! unat i1)[j := nullFp]])"
    "\<not> ok1 \<longrightarrow> cf1 = cf" by blast
  show ?thesis
  proof (cases ok1)
    case True
    then have "Delete H cf d = Some (True, cf1)" using assms(2) d1(1) by (simp add: Delete_def)
    moreover have "stored cf1 + {#fp#} = stored cf"
      using delete_filter_stored[OF assms(1) r1 nz] d1(1) True by simp
    ultimately show ?thesis using d1 True p
      by (intro exI[of _ True] exI[of _ cf1]) auto
  next
    case f1: False
    then have e1: "cf1 = cf" using d1(6) by simp
    from delete_filter_result[OF assms(1) r2, of fp] obtain ok2 cf2 where
      d2: "delete_filter cf fp ?i2 = Some (ok2, cf2)" "wf_shape cf2" "BucketPow cf2 = BucketPow cf"
      "ok2 \<longleftrightarrow> fp \<in> set (Buckets cf ! unat ?i2)"
      "ok2 \<longrightarrow> Count cf2 = (if Count cf > 0 then Count cf - 1 else Count cf) \<and>
                  (\<exists>j < 4. Buckets cf ! unat ?i2 ! j = fp \<and>
                     Buckets cf2 = (Buckets cf)[unat ?i2 := (Buckets cf ! unat ?i2)[j := nullFp]])"
      "\<not> ok2 \<longrightarrow> cf2 = cf" by blast
    have del: "Delete H cf d = Some (ok2, cf2)"
      using assms(2) d1(1) f1 e1 d2(1) by (simp add: Delete_def Let_def)
    show ?thesis
    proof (cases ok2)
      case True
      have "stored cf2 + {#fp#} = stored cf"
        using delete_filter_stored[OF assms(1) r2 nz] d2(1) True by simp
      then show ?thesis using del d2 True p
        by (intro exI[of _ True] exI[of _ cf2]) auto
    next
      case False
      then show ?thesis using del d2 f1 d1(4) p
        by (intro exI[of _ False] exI[of _ cf2]) auto
    qed
  qed
qed

lemma nonzero_reset: "nonzero (concat (map reset_bucket B)) = []"
  by (induction B) (auto simp: nonzero_def reset_bucket_def)

lemma Reset_result: "wf_shape cf \<Longrightarrow> wf_filter (Reset cf) \<and> BucketPow (Reset cf) = BucketPow cf"
  by (auto simp: wf_filter_def wf_shape_def Reset_def occupied_def nonzero_reset
      reset_bucket_def list_all_iff)

section \<open>The invariant of reachable filters\<close>

lemma Insert_wf:
  assumes "wf_filter cf" "Insert H cf d r = Some (ok, cf', r')"
  shows "wf_filter cf' \<and> BucketPow cf' = BucketPow cf"
proof -
  have w: "wf_shape cf" and c: "unat (Count cf) = size (stored cf)"
    using assms(1) by (simp_all add: wf_filter_def occupied_stored)
  from Insert_result[OF w, of H d r] assms(2) obtain h where
    r: "wf_shape cf'" "BucketPow cf' = BucketPow cf"
    "ok \<longrightarrow> Count cf' = Count cf + 1 \<and>
        stored cf' = stored cf + {#snd (getIndexAndFingerprint H d (BucketPow cf))#}"
    "\<not> ok \<longrightarrow> Count cf' = Count cf \<and>
        stored cf' + {#h#} = stored cf + {#snd (getIndexAndFingerprint H d (BucketPow cf))#}"
    by auto
  have "unat (Count cf') = size (stored cf')"
  proof (cases ok)
    case True
    then have s: "size (stored cf') = Suc (size (stored cf))" using r(3) by simp
    then have "Suc (size (stored cf)) \<le> 2 ^ 63" using stored_bound[OF r(1)] by simp
    from unat_Suc_count[OF c this] show ?thesis using True r(3) s by simp
  next
    case False
    then have "size (stored cf' + {#h#}) = size (stored cf + {#snd (getIndexAndFingerprint H d (BucketPow cf))#})"
      using r(4) by simp
    then show ?thesis using False r(4) c by simp
  qed
  then show ?thesis using r by (simp add: wf_filter_def occupied_stored)
qed

lemma Delete_wf:
  assumes "wf_filter cf" "Delete H cf d = Some (ok, cf')"
  shows "wf_filter cf' \<and> BucketPow cf' = BucketPow cf \<and>
    (ok \<longrightarrow> Count cf \<noteq> 0 \<and> Count cf' = Count cf - 1 \<and> unat (Count cf') = unat (Count cf) - 1)"
proof -
  have w: "wf_shape cf" and c: "unat (Count cf) = size (stored cf)"
    using assms(1) by (simp_all add: wf_filter_def occupied_stored)
  obtain i1 fp where g: "getIndexAndFingerprint H d (BucketPow cf) = (i1, fp)"
    by (cases "getIndexAndFingerprint H d (BucketPow cf)")
  from Delete_result[OF w g] assms(2) have
    r: "wf_shape cf'" "BucketPow cf' = BucketPow cf"
    "ok \<longrightarrow> Count cf' = (if Count cf > 0 then Count cf - 1 else Count cf) \<and>
        stored cf' + {#fp#} = stored cf"
    "\<not> ok \<longrightarrow> cf' = cf"
    by auto
  show ?thesis
  proof (cases ok)
    case True
    then have "size (stored cf' + {#fp#}) = size (stored cf)" using r(3) by simp
    then have s: "size (stored cf) = Suc (size (stored cf'))" by simp
    then have "unat (Count cf) \<noteq> 0" using c by simp
    then have nz: "Count cf \<noteq> 0" by (metis unat_0)
    then have "0 < Count cf" by (simp add: word_greater_zero_iff)
    then have c': "Count cf' = Count cf - 1" using True r(3) by simp
    then have "unat (Count cf') = unat (Count cf) - 1" using nz by (simp add: unat_minus_one)
    then show ?thesis using r(1,2) True c s nz c' by (simp add: wf_filter_def occupied_stored)
  next
    case False
    then show ?thesis using r(4) assms(1) by simp
  qed
qed

lemma apply_call_wf:
  assumes "wf_filter cf" "apply_call H c cf r = Some (ok, cf', r')"
  shows "wf_filter cf'"
proof (cases c)
  case (CallInsert d)
  then show ?thesis using assms Insert_wf by auto
next
  case (CallInsertUnique d)
  have w: "wf_shape cf" using assms(1) by (simp add: wf_filter_def)
  show ?thesis
  proof (cases "present H cf d")
    case True
    then have "cf' = cf" using assms(2) CallInsertUnique Lookup_present[OF w, of H d]
      by (simp add: InsertUnique_def)
    then show ?thesis using assms(1) by simp
  next
    case False
    then have "Insert H cf d r = Some (ok, cf', r')"
      using assms(2) CallInsertUnique Lookup_present[OF w, of H d]
      by (simp add: InsertUnique_def)
    then show ?thesis using assms(1) Insert_wf by blast
  qed
next
  case (CallDelete d)
  then obtain ok1 where "Delete H cf d = Some (ok1, cf')"
    using assms(2) by (auto split: option.splits)
  then show ?thesis using assms(1) Delete_wf by blast
next
  case CallReset
  then show ?thesis using assms Reset_result[of cf] by (auto simp: wf_filter_def)
qed

lemma nonzero_empty: "nonzero (concat (replicate n emptyBucket)) = []"
  by (induction n) (auto simp: nonzero_def emptyBucket_def)

lemma NewFilter_wf: "NewFilter c = Some cf \<Longrightarrow> wf_filter cf"
proof -
  assume "NewFilter c = Some cf"
  from NewFilter_shape[OF this] obtain k where k: "k \<le> 46"
    "cf = \<lparr>Buckets = replicate (2 ^ k) emptyBucket, Count = 0, BucketPow = k\<rparr>"
    by blast
  have "length emptyBucket = bucketSize" by (simp add: emptyBucket_def)
  then show ?thesis
    unfolding k(2) using k(1)
    by (simp add: wf_filter_def wf_shape_def occupied_def nonzero_empty list_all_iff)
qed

lemma reachable_wf: "reachable H cf \<Longrightarrow> wf_filter cf"
  by (induction rule: reachable.induct) (auto intro: NewFilter_wf apply_call_wf)

lemma drop_concat4:
  "\<forall>b \<in> set B. length b = 4 \<Longrightarrow> drop (i * 4) (concat B) = concat (drop i B)"
proof (induction B arbitrary: i)
  case Nil then show ?case by simp
next
  case (Cons a B)
  then show ?case by (cases i) simp_all
qed

lemma chunk_concat:
  assumes "\<forall>b \<in> set B. length b = 4" "i < length B"
  shows "chunk (concat B) i = B ! i"
proof -
  have l: "length (concat B) = length B * 4" using assms(1) by (rule length_concat4)
  then have "i * 4 + 4 \<le> length (concat B)" using assms(2) by simp
  then have "chunk (concat B) i = take 4 (drop (i * 4) (concat B))" by (rule chunk_take_drop)
  also have "\<dots> = take 4 (concat (drop i B))" using assms(1) by (simp add: drop_concat4)
  also have "drop i B = B ! i # drop (Suc i) B" using assms(2) by (simp add: Cons_nth_drop_Suc)
  finally show ?thesis using assms by simp
qed

lemma Decode_Encode:
  assumes "wf_filter cf"
  shows "Decode (Encode cf) = Inr cf \<and> Encode cf = concat (Buckets cf) \<and>
         length (Encode cf) = length (Buckets cf) * 4"
proof -
  let ?B = "Buckets cf"
  have w: "wf_shape cf" and c: "unat (Count cf) = occupied cf"
    using assms by (simp_all add: wf_filter_def)
  have all4: "\<forall>b \<in> set ?B. length b = 4"
    using w by (simp add: wf_shape_def list_all_iff bucketSize_def)
  have enc: "Encode cf = concat ?B" using all4 by (rule Encode_concat)
  have len: "length (concat ?B) = length ?B * 4" using all4 by (rule length_concat4)
  have n: "length ?B = 2 ^ BucketPow cf" and bp: "BucketPow cf < 64"
    using w by (simp_all add: wf_shape_def)
  have ne: "concat ?B \<noteq> []" using len n by (metis length_0_conv mult_eq_0_iff power_not_zero zero_neq_numeral)
  have m4: "length (concat ?B) mod 4 = 0" using len by simp
  have d: "length (concat ?B) div 4 = length ?B" using len by simp
  have b: "map (chunk (concat ?B)) [0..<length ?B] = ?B"
    using all4 by (intro nth_equalityI) (simp_all add: chunk_concat)
  have "word_of_nat (unat (Count cf)) = Count cf" by simp
  then have cnt: "word_of_nat (length (nonzero (concat ?B))) = Count cf"
    using c by (simp add: occupied_def)
  have tz: "TrailingZeros (word_of_nat (length ?B)) = BucketPow cf"
    using tz_pow2[OF bp] n by simp
  have "Decode (concat ?B) = Inr cf"
    by (subst Decode_ok[OF ne m4]) (simp add: d b cnt tz)
  then show ?thesis using enc len by simp
qed

section \<open>Concrete runs\<close>

lemma example_index: "getIndexAndFingerprint exampleHashes (b # bs) 0 = (0, if b = 0 then 1 else b)"
  by (simp add: getIndexAndFingerprint_def exampleHashes_def nullFp_def)

lemma example_alt: "getAltIndex H fp i 0 = 0"
  by (simp add: getAltIndex_def)

lemmas example_simps = Insert_def insert_filter_def bucket_at_def example_index example_alt
  nullFp_def Let_def

lemma example_insert1:
  "Insert exampleHashes \<lparr>Buckets = [[0, 0, 0, 0]], Count = 0, BucketPow = 0\<rparr> [1] r =
     Some (True, \<lparr>Buckets = [[1, 0, 0, 0]], Count = 1, BucketPow = 0\<rparr>, r)"
  by (simp add: example_simps)

lemma example_insert2:
  "Insert exampleHashes \<lparr>Buckets = [[1, 0, 0, 0]], Count = 1, BucketPow = 0\<rparr> [2] r =
     Some (True, \<lparr>Buckets = [[1, 2, 0, 0]], Count = 2, BucketPow = 0\<rparr>, r)"
  by (simp add: example_simps)

lemma example_insert3:
  "Insert exampleHashes \<lparr>Buckets = [[1, 2, 0, 0]], Count = 2, BucketPow = 0\<rparr> [3] r =
     Some (True, \<lparr>Buckets = [[1, 2, 3, 0]], Count = 3, BucketPow = 0\<rparr>, r)"
  by (simp add: example_simps)

lemma example_insert4:
  "Insert exampleHashes \<lparr>Buckets = [[1, 2, 3, 0]], Count = 3, BucketPow = 0\<rparr> [4] r =
     Some (True, fullFilter, r)"
  by (simp add: example_simps fullFilter_def)

lemma reachable_insert:
  "reachable H cf \<Longrightarrow> Insert H cf d r = Some (ok, cf', r') \<Longrightarrow> reachable H cf'"
  using reachable_call[of H cf "CallInsert d" r ok cf' r'] by simp

lemma reachable_empty:
  "reachable exampleHashes \<lparr>Buckets = [[0, 0, 0, 0]], Count = 0, BucketPow = 0\<rparr>"
  using reachable_new[OF NewFilter_4] .

lemma reachable_one:
  "reachable exampleHashes \<lparr>Buckets = [[1, 0, 0, 0]], Count = 1, BucketPow = 0\<rparr>"
  using reachable_insert[OF reachable_empty example_insert1] .

lemma reachable_full: "reachable exampleHashes fullFilter"
  using reachable_insert[OF reachable_insert[OF reachable_insert[OF reachable_one
      example_insert2] example_insert3] example_insert4] .

lemma example_loop:
  "x \<noteq> 0 \<Longrightarrow> y \<noteq> 0 \<Longrightarrow> 2 \<le> n \<Longrightarrow>
   reinsert_loop exampleHashes k \<lparr>Buckets = [[x, 5, 3, 4]], Count = 4, BucketPow = 0\<rparr> y 0
       (fst exampleRng, n) =
     Some (False, \<lparr>Buckets = [[if even k then x else y, 5, 3, 4]], Count = 4, BucketPow = 0\<rparr>,
           (fst exampleRng, n + k))"
proof (induction k arbitrary: x y n)
  case 0
  then show ?case by simp
next
  case (Suc k)
  have "reinsert_loop exampleHashes (Suc k)
          \<lparr>Buckets = [[x, 5, 3, 4]], Count = 4, BucketPow = 0\<rparr> y 0 (fst exampleRng, n) =
        reinsert_loop exampleHashes k
          \<lparr>Buckets = [[y, 5, 3, 4]], Count = 4, BucketPow = 0\<rparr> x 0 (fst exampleRng, Suc n)"
    using Suc.prems
    by (simp add: Intn_def exampleRng_def bucketSize_def insert_filter_def bucket_at_def
        example_alt nullFp_def Let_def)
  then show ?case using Suc.IH[of y x "Suc n"] Suc.prems by simp
qed

lemma example_first:
  "reinsert_loop exampleHashes (Suc k) fullFilter 5 0 (fst exampleRng, Suc 0) =
   reinsert_loop exampleHashes k
       \<lparr>Buckets = [[1, 5, 3, 4]], Count = 4, BucketPow = 0\<rparr> 2 0 (fst exampleRng, Suc (Suc 0))"
  by (simp add: fullFilter_def Intn_def exampleRng_def bucketSize_def insert_filter_def
      bucket_at_def example_alt nullFp_def Let_def)

lemma example_failed_insert:
  "Insert exampleHashes fullFilter [5] exampleRng =
     Some (False, churnedFilter, (fst exampleRng, 501))"
proof -
  have r: "randi exampleRng 0 0 = (0, (fst exampleRng, Suc 0))"
    by (simp add: randi_def Intn_def exampleRng_def)
  have "Insert exampleHashes fullFilter [5] exampleRng =
      reinsert_loop exampleHashes maxCuckooCount fullFilter 5 0 (fst exampleRng, Suc 0)"
    by (simp add: example_simps fullFilter_def reinsert_def r)
  also have "maxCuckooCount = Suc 499" by (simp add: maxCuckooCount_def)
  also have "reinsert_loop exampleHashes (Suc 499) fullFilter 5 0 (fst exampleRng, Suc 0) =
      Some (False, churnedFilter, (fst exampleRng, 501))"
    unfolding example_first using example_loop[of 1 2 "Suc (Suc 0)" 499] by (simp add: churnedFilter_def)
  finally show ?thesis .
qed

section \<open>Count\<close>

lemma Decode_Inr:
  assumes "Decode bytes = Inr cf"
  shows "bytes \<noteq> [] \<and> length bytes mod 4 = 0"
proof (rule ccontr)
  assume "\<not> (bytes \<noteq> [] \<and> length bytes mod 4 = 0)"
  then have "\<exists>e. Decode bytes = Inl e"
    using Decode_empty Decode_mismatch[of bytes] by (cases "bytes = []") auto
  then show False using assms by auto
qed

lemma Decode_count:
  assumes "Decode bytes = Inr cf" "length bytes < 2 ^ 63"
  shows "unat (Count cf) = occupied cf"
proof -
  from Decode_Inr[OF assms(1)] have ne: "bytes \<noteq> []" and m: "length bytes mod 4 = 0" by simp_all
  from Decode_layout[OF ne m] assms(1) have
    c: "unat (Count cf) = length (nonzero bytes) mod 2 ^ 64"
    and b: "Buckets cf = map (chunk bytes) [0..<length bytes div 4]" by auto
  have "length bytes div 4 * 4 = length bytes" using m by presburger
  then have "concat (Buckets cf) = bytes"
    using concat_chunks[of "length bytes div 4" bytes] b by simp
  then have o: "occupied cf = length (nonzero bytes)" by (simp add: occupied_def)
  have "length (nonzero bytes) \<le> length bytes" by (simp add: nonzero_def)
  then have "length (nonzero bytes) < 2 ^ 64" using assms(2) by simp
  then show ?thesis using c o by simp
qed

text \<open>
  Claim C2 (count invariant): for every filter reachable from \<open>NewFilter\<close> by any sequence
  of \<open>Insert\<close>, \<open>InsertUnique\<close>, \<open>Delete\<close> and \<open>Reset\<close> calls with any random choices, and
  for every filter returned by \<open>Decode\<close>, \<open>CountEntries\<close> is the number of slots
  that do not hold the sentinel 0. (The length of a Go slice is below \<open>2^63\<close>.)
\<close>

theorem Count_invariant:
  "(reachable H cf \<longrightarrow> unat (CountEntries cf) = occupied cf) \<and>
   (Decode bytes = Inr cf' \<and> length bytes < 2 ^ 63 \<longrightarrow>
      unat (CountEntries cf') = occupied cf')"
  using reachable_wf[of H cf] Decode_count[of bytes cf']
  by (auto simp: wf_filter_def CountEntries_def)

lemma Decode_example:
  "Decode [9, 0, 0, 7] = Inr \<lparr>Buckets = [[9, 0, 0, 7]], Count = 2, BucketPow = 0\<rparr>"
proof -
  have "TrailingZeros 1 = 0" by code_simp
  then show ?thesis
    by (subst Decode_ok) (simp_all add: chunk4 nonzero_def nullFp_def)
qed

theorem Count_invariant_witness:
  "reachable exampleHashes fullFilter \<and>
   unat (CountEntries fullFilter) = occupied fullFilter \<and> occupied fullFilter = 4 \<and>
   Decode [9, 0, 0, 7] = Inr \<lparr>Buckets = [[9, 0, 0, 7]], Count = 2, BucketPow = 0\<rparr> \<and>
   length [9, 0, 0, 7 :: byte] < 2 ^ 63 \<and>
   unat (CountEntries \<lparr>Buckets = [[9, 0, 0, 7]], Count = 2, BucketPow = 0\<rparr>) =
     occupied \<lparr>Buckets = [[9, 0, 0, 7]], Count = 2, BucketPow = 0\<rparr> \<and>
   occupied \<lparr>Buckets = [[9, 0, 0, 7]], Count = 2, BucketPow = 0\<rparr> = 2"
proof -
  have l: "length [9, 0, 0, 7 :: byte] < 2 ^ 63" by simp
  have o1: "occupied fullFilter = 4"
    by (simp add: occupied_def fullFilter_def nonzero_def nullFp_def)
  have o2: "occupied \<lparr>Buckets = [[9, 0, 0, 7]], Count = 2, BucketPow = 0\<rparr> = 2"
    by (simp add: occupied_def nonzero_def nullFp_def)
  show ?thesis
    using Count_invariant[of exampleHashes fullFilter "[9, 0, 0, 7]"
        "\<lparr>Buckets = [[9, 0, 0, 7]], Count = 2, BucketPow = 0\<rparr>"]
      reachable_full Decode_example l o1 o2
    by blast
qed

text \<open>
  Claim C6 (insert count delta): on every reachable filter and for every sequence of
  random choices \<open>Insert\<close> returns; when it returns true, \<open>Count\<close> has grown by exactly 1
  (without wrapping around), and when it returns false the swaps of the eviction loop
  have left \<open>Count\<close> as it was.
\<close>

theorem Insert_count_delta:
  "reachable H cf \<Longrightarrow>
   \<exists>ok cf' r'. Insert H cf d r = Some (ok, cf', r') \<and>
     (ok \<longrightarrow> Count cf' = Count cf + 1 \<and> unat (Count cf') = unat (Count cf) + 1) \<and>
     (\<not> ok \<longrightarrow> Count cf' = Count cf)"
proof -
  assume "reachable H cf"
  then have wf: "wf_filter cf" by (rule reachable_wf)
  then have w: "wf_shape cf" by (simp add: wf_filter_def)
  from Insert_result[OF w, of H d r] obtain ok cf' r' where
    i: "Insert H cf d r = Some (ok, cf', r')"
    and s: "ok \<longrightarrow> Count cf' = Count cf + 1 \<and>
        stored cf' = stored cf + {#snd (getIndexAndFingerprint H d (BucketPow cf))#}"
    and f: "\<not> ok \<longrightarrow> Count cf' = Count cf" by blast
  from Insert_wf[OF wf i] have a: "unat (Count cf') = size (stored cf')"
    by (simp add: wf_filter_def occupied_stored)
  have b: "unat (Count cf) = size (stored cf)"
    using wf by (simp add: wf_filter_def occupied_stored)
  have "ok \<longrightarrow> unat (Count cf') = unat (Count cf) + 1"
  proof
    assume ok
    then have "size (stored cf') = Suc (size (stored cf))" using s by simp
    then show "unat (Count cf') = unat (Count cf) + 1" using a b by simp
  qed
  then show ?thesis using i s f by blast
qed

theorem Insert_count_delta_witness:
  "NewFilter 4 = Some \<lparr>Buckets = [[0, 0, 0, 0]], Count = 0, BucketPow = 0\<rparr> \<and>
   reachable exampleHashes \<lparr>Buckets = [[0, 0, 0, 0]], Count = 0, BucketPow = 0\<rparr> \<and>
   Insert exampleHashes \<lparr>Buckets = [[0, 0, 0, 0]], Count = 0, BucketPow = 0\<rparr> [1] exampleRng =
     Some (True, \<lparr>Buckets = [[1, 0, 0, 0]], Count = 1, BucketPow = 0\<rparr>, exampleRng) \<and>
   Count \<lparr>Buckets = [[1, 0, 0, 0]], Count = 1, BucketPow = 0\<rparr> =
     Count \<lparr>Buckets = [[0, 0, 0, 0]], Count = 0, BucketPow = 0\<rparr> + 1 \<and>
   reachable exampleHashes fullFilter \<and>
   Insert exampleHashes fullFilter [5] exampleRng =
     Some (False, churnedFilter, (fst exampleRng, 501)) \<and>
   Count churnedFilter = Count fullFilter"
  using Insert_count_delta[OF reachable_empty, of "[1]" exampleRng]
    Insert_count_delta[OF reachable_full, of "[5]" exampleRng]
    reachable_empty reachable_full example_failed_insert
    example_insert1[of exampleRng] NewFilter_4
  by auto

section \<open>Delete\<close>

text \<open>
  Claim C7 (Delete contract): on every reachable filter, with \<open>fp\<close> the fingerprint and
  \<open>i1\<close>, \<open>i2\<close> the candidate buckets of \<open>data\<close>, \<open>Delete\<close> returns true exactly when \<open>fp\<close>
  occupies a slot of bucket \<open>i1\<close> or of bucket \<open>i2\<close>. When it returns true, exactly one slot
  that held \<open>fp\<close> (in one of these two buckets) now holds 0, every other slot is as
  before, and \<open>Count\<close>, which was not 0, has decreased by exactly 1. When it returns
  false, buckets and \<open>Count\<close> are unchanged.
\<close>

theorem Delete_contract:
  "reachable H cf \<Longrightarrow> getIndexAndFingerprint H d (BucketPow cf) = (i1, fp) \<Longrightarrow>
   \<exists>ok cf'. Delete H cf d = Some (ok, cf') \<and>
     (ok \<longleftrightarrow> fp \<in> set (Buckets cf ! unat i1) \<or>
            fp \<in> set (Buckets cf ! unat (getAltIndex H fp i1 (BucketPow cf)))) \<and>
     (ok \<longrightarrow>
        (\<exists>i j. (i = i1 \<or> i = getAltIndex H fp i1 (BucketPow cf)) \<and>
           unat i < length (Buckets cf) \<and> j < 4 \<and> Buckets cf ! unat i ! j = fp \<and>
           Buckets cf' = (Buckets cf)[unat i := (Buckets cf ! unat i)[j := nullFp]]) \<and>
        Count cf \<noteq> 0 \<and> Count cf' = Count cf - 1 \<and>
        unat (Count cf') = unat (Count cf) - 1 \<and> BucketPow cf' = BucketPow cf) \<and>
     (\<not> ok \<longrightarrow> cf' = cf)"
proof -
  assume r: "reachable H cf" and g: "getIndexAndFingerprint H d (BucketPow cf) = (i1, fp)"
  from r have wf: "wf_filter cf" by (rule reachable_wf)
  then have w: "wf_shape cf" by (simp add: wf_filter_def)
  let ?i2 = "getAltIndex H fp i1 (BucketPow cf)"
  from getIndex_range[OF w g] have r1: "unat i1 < length (Buckets cf)" by simp
  have r2: "unat ?i2 < length (Buckets cf)" using w by (rule getAltIndex_range)
  from Delete_result[OF w g] obtain ok cf' where
    d: "Delete H cf d = Some (ok, cf')"
    and p: "ok \<longleftrightarrow> present H cf d"
    and u: "ok \<longrightarrow> (\<exists>i j. (i = i1 \<or> i = ?i2) \<and> j < 4 \<and>
           Buckets cf ! unat i ! j = fp \<and>
           Buckets cf' = (Buckets cf)[unat i := (Buckets cf ! unat i)[j := nullFp]])"
    and n: "\<not> ok \<longrightarrow> cf' = cf" by blast
  have p': "ok \<longleftrightarrow> fp \<in> set (Buckets cf ! unat i1) \<or> fp \<in> set (Buckets cf ! unat ?i2)"
    using p g by (simp add: present_def)
  have u': "ok \<longrightarrow> (\<exists>i j. (i = i1 \<or> i = ?i2) \<and> unat i < length (Buckets cf) \<and> j < 4 \<and>
           Buckets cf ! unat i ! j = fp \<and>
           Buckets cf' = (Buckets cf)[unat i := (Buckets cf ! unat i)[j := nullFp]])"
    using u r1 r2 by blast
  from Delete_wf[OF wf d] have c: "ok \<longrightarrow> Count cf \<noteq> 0 \<and> Count cf' = Count cf - 1 \<and>
      unat (Count cf') = unat (Count cf) - 1" and bp: "BucketPow cf' = BucketPow cf" by blast+
  show ?thesis using d p' u' c bp n by blast
qed

lemma example_delete:
  "Delete exampleHashes fullFilter [3] =
     Some (True, \<lparr>Buckets = [[1, 2, 0, 4]], Count = 3, BucketPow = 0\<rparr>)"
  by (simp add: Delete_def delete_filter_def bucket_at_def example_index example_alt
      nullFp_def Let_def fullFilter_def)

theorem Delete_contract_witness:
  "reachable exampleHashes fullFilter \<and>
   getIndexAndFingerprint exampleHashes [3] (BucketPow fullFilter) = (0, 3) \<and>
   Delete exampleHashes fullFilter [3] =
     Some (True, \<lparr>Buckets = [[1, 2, 0, 4]], Count = 3, BucketPow = 0\<rparr>) \<and>
   (\<exists>ok cf'. Delete exampleHashes fullFilter [3] = Some (ok, cf') \<and>
     (ok \<longleftrightarrow> 3 \<in> set (Buckets fullFilter ! unat (0 :: uint)) \<or>
            3 \<in> set (Buckets fullFilter !
                unat (getAltIndex exampleHashes 3 0 (BucketPow fullFilter)))) \<and>
     (ok \<longrightarrow>
        (\<exists>i j. (i = 0 \<or> i = getAltIndex exampleHashes 3 0 (BucketPow fullFilter)) \<and>
           unat i < length (Buckets fullFilter) \<and> j < 4 \<and>
           Buckets fullFilter ! unat i ! j = 3 \<and>
           Buckets cf' =
             (Buckets fullFilter)[unat i := (Buckets fullFilter ! unat i)[j := nullFp]]) \<and>
        Count fullFilter \<noteq> 0 \<and> Count cf' = Count fullFilter - 1 \<and>
        unat (Count cf') = unat (Count fullFilter) - 1 \<and>
        BucketPow cf' = BucketPow fullFilter) \<and>
     (\<not> ok \<longrightarrow> cf' = fullFilter))"
proof -
  have g: "getIndexAndFingerprint exampleHashes [3] (BucketPow fullFilter) = (0, 3)"
    by (simp add: example_index fullFilter_def)
  show ?thesis
    by (intro conjI reachable_full g example_delete Delete_contract[OF reachable_full g])
qed

section \<open>A failed insertion\<close>

text \<open>
  Claim C5, as amended: when \<open>Insert\<close> returns false on a reachable filter, the multiset
  of stored fingerprints after the call is the multiset before the call with the
  inserted fingerprint added and one stored or inserted fingerprint \<open>h\<close> (the one
  left in hand when the loop ends) removed; the number of stored fingerprints and
  \<open>Count\<close> are unchanged.
\<close>

theorem Insert_failed_stored:
  "reachable H cf \<Longrightarrow> Insert H cf d r = Some (False, cf', r') \<Longrightarrow>
   \<exists>h. h \<noteq> nullFp \<and>
       stored cf' + {#h#} = stored cf + {#snd (getIndexAndFingerprint H d (BucketPow cf))#} \<and>
       size (stored cf') = size (stored cf) \<and> Count cf' = Count cf"
proof -
  assume "reachable H cf" and i: "Insert H cf d r = Some (False, cf', r')"
  then have "wf_shape cf" using reachable_wf[of H cf] by (simp add: wf_filter_def)
  from Insert_result[OF this, of H d r] i obtain h where h: "h \<noteq> nullFp"
    "stored cf' + {#h#} = stored cf + {#snd (getIndexAndFingerprint H d (BucketPow cf))#}"
    "Count cf' = Count cf" by auto
  from h(2) have "size (stored cf' + {#h#}) =
      size (stored cf + {#snd (getIndexAndFingerprint H d (BucketPow cf))#})" by simp
  then have "size (stored cf') = size (stored cf)" by simp
  then show ?thesis using h by blast
qed

lemma stored_full: "stored fullFilter = {#1, 2, 3, 4#}"
  by (simp add: stored_def fullFilter_def nonzero_def nullFp_def)

lemma stored_churned: "stored churnedFilter = {#2, 5, 3, 4#}"
  by (simp add: stored_def churnedFilter_def nonzero_def nullFp_def)

theorem Insert_failed_stored_witness:
  "reachable exampleHashes fullFilter \<and>
   Insert exampleHashes fullFilter [5] exampleRng =
     Some (False, churnedFilter, (fst exampleRng, 501)) \<and>
   (\<exists>h. h \<noteq> nullFp \<and>
       stored churnedFilter + {#h#} =
         stored fullFilter +
           {#snd (getIndexAndFingerprint exampleHashes [5] (BucketPow fullFilter))#} \<and>
       size (stored churnedFilter) = size (stored fullFilter) \<and>
       Count churnedFilter = Count fullFilter) \<and>
   stored fullFilter = {#1, 2, 3, 4#} \<and> stored churnedFilter = {#2, 5, 3, 4#}"
  by (intro conjI reachable_full example_failed_insert stored_full stored_churned
      Insert_failed_stored[OF reachable_full example_failed_insert])

theorem Insert_failed_changes_stored:
  "reachable exampleHashes fullFilter \<and>
   Insert exampleHashes fullFilter [5] exampleRng =
     Some (False, churnedFilter, (fst exampleRng, 501)) \<and>
   stored churnedFilter \<noteq> stored fullFilter"
proof -
  have "count (stored churnedFilter) 5 = 1" by (simp add: stored_churned)
  moreover have "count (stored fullFilter) 5 = 0" by (simp add: stored_full)
  ultimately have "stored churnedFilter \<noteq> stored fullFilter" by auto
  then show ?thesis using reachable_full example_failed_insert by blast
qed

section \<open>Encode and Decode\<close>

lemma nth_concat4:
  assumes "\<forall>b \<in> set B. length b = 4" "i < length B" "j < 4"
  shows "concat B ! (i * 4 + j) = (B :: bucket list) ! i ! j"
proof -
  have "chunk (concat B) i ! j = concat B ! (i * 4 + j)"
    using assms(3) by (simp add: chunk_def bucketSize_def)
  then show ?thesis using chunk_concat[OF assms(1,2)] by simp
qed

text \<open>
  Claim C4 (Encode/Decode round trip): for every filter reachable from \<open>NewFilter\<close>,
  \<open>Decode (Encode f)\<close> succeeds and yields a filter with the buckets, the \<open>Count\<close> and the
  \<open>BucketPow\<close> of \<open>f\<close>; \<open>Encode\<close> returns \<open>len(Buckets) * 4\<close> bytes, the byte at \<open>i * 4 + j\<close>
  being the fingerprint in slot \<open>j\<close> of bucket \<open>i\<close> (0 for an empty slot).
\<close>

theorem Encode_Decode_roundtrip:
  "reachable H cf \<Longrightarrow>
   (\<exists>cf'. Decode (Encode cf) = Inr cf' \<and> Buckets cf' = Buckets cf \<and>
          Count cf' = Count cf \<and> BucketPow cf' = BucketPow cf) \<and>
   length (Encode cf) = length (Buckets cf) * 4 \<and>
   Encode cf = concat (Buckets cf) \<and>
   (\<forall>i < length (Buckets cf). \<forall>j < 4. Encode cf ! (i * 4 + j) = Buckets cf ! i ! j)"
proof -
  assume "reachable H cf"
  then have wf: "wf_filter cf" by (rule reachable_wf)
  then have all4: "\<forall>b \<in> set (Buckets cf). length b = 4"
    by (simp add: wf_filter_def wf_shape_def list_all_iff bucketSize_def)
  from Decode_Encode[OF wf] have d: "Decode (Encode cf) = Inr cf"
    and e: "Encode cf = concat (Buckets cf)"
    and l: "length (Encode cf) = length (Buckets cf) * 4" by blast+
  have n: "\<forall>i < length (Buckets cf). \<forall>j < 4. Encode cf ! (i * 4 + j) = Buckets cf ! i ! j"
    unfolding e using nth_concat4[OF all4] by blast
  show ?thesis using d e l n by blast
qed

theorem Encode_Decode_roundtrip_witness:
  "reachable exampleHashes fullFilter \<and> Encode fullFilter = [1, 2, 3, 4] \<and>
   Decode [1, 2, 3, 4] = Inr fullFilter \<and>
   (\<exists>cf'. Decode (Encode fullFilter) = Inr cf' \<and> Buckets cf' = Buckets fullFilter \<and>
          Count cf' = Count fullFilter \<and> BucketPow cf' = BucketPow fullFilter)"
proof -
  note t = Encode_Decode_roundtrip[OF reachable_full]
  have e: "Encode fullFilter = [1, 2, 3, 4]"
    using t by (simp add: fullFilter_def)
  have x: "\<exists>cf'. Decode (Encode fullFilter) = Inr cf' \<and> Buckets cf' = Buckets fullFilter \<and>
          Count cf' = Count fullFilter \<and> BucketPow cf' = BucketPow fullFilter"
    using t by (rule conjunct1)
  then obtain cf' where c: "Decode (Encode fullFilter) = Inr cf'" "Buckets cf' = Buckets fullFilter"
    "Count cf' = Count fullFilter" "BucketPow cf' = BucketPow fullFilter" by (elim exE conjE)
  have "cf' = fullFilter" using c(2,3,4) by simp
  then have "Decode [1, 2, 3, 4] = Inr fullFilter" using c(1) e by simp
  then show ?thesis using reachable_full e x by (intro conjI)
qed

section \<open>Fingerprints stay in their candidate buckets\<close>

lemma set_update_keep: "x \<in> set xs \<Longrightarrow> xs ! j \<noteq> x \<Longrightarrow> x \<in> set (xs[j := v])"
proof -
  assume a: "x \<in> set xs" "xs ! j \<noteq> x"
  then obtain k where k: "k < length xs" "xs ! k = x" by (auto simp: in_set_conv_nth)
  then have "k \<noteq> j" using a(2) by auto
  then have "xs[j := v] ! k = x" using k by simp
  then show ?thesis using k(1) by (metis length_list_update nth_mem)
qed

lemma within_update_keep:
  assumes "within cf f a b"
    and "Buckets cf ! i ! j \<noteq> f \<or> (i \<noteq> unat a \<and> i \<noteq> unat b)"
    and "Buckets cf' = (Buckets cf)[i := (Buckets cf ! i)[j := v]]"
    and "unat a < length (Buckets cf)" "unat b < length (Buckets cf)"
  shows "within cf' f a b"
proof -
  have k: "\<And>x. unat x < length (Buckets cf) \<Longrightarrow> (x = a \<or> x = b) \<Longrightarrow>
      f \<in> set (Buckets cf ! unat x) \<Longrightarrow> f \<in> set (Buckets cf' ! unat x)"
  proof -
    fix x assume x: "unat x < length (Buckets cf)" "x = a \<or> x = b"
      "f \<in> set (Buckets cf ! unat x)"
    show "f \<in> set (Buckets cf' ! unat x)"
    proof (cases "unat x = i")
      case True
      then have "Buckets cf ! i ! j \<noteq> f" using assms(2) x(2) by auto
      then have "f \<in> set ((Buckets cf ! i)[j := v])" using x(3) True by (simp add: set_update_keep)
      then show ?thesis using True x(1) assms(3) by simp
    next
      case False
      then show ?thesis using x(3) assms(3) by simp
    qed
  qed
  show ?thesis using assms(1,4,5) k[of a] k[of b] by (auto simp: within_def)
qed

lemma within_update_put:
  assumes "i = unat a \<or> i = unat b" "i < length (Buckets cf)" "j < length (Buckets cf ! i)"
    and "Buckets cf' = (Buckets cf)[i := (Buckets cf ! i)[j := f]]"
  shows "within cf' f a b"
proof -
  have "f \<in> set ((Buckets cf ! i)[j := f])" using assms(3) by (rule set_update_memI)
  then have "f \<in> set (Buckets cf' ! i)" using assms(2,4) by simp
  then show ?thesis using assms(1) by (auto simp: within_def)
qed

lemma insert_filter_within:
  assumes "wf_shape cf" "unat i < length (Buckets cf)"
    and "insert_filter cf e i = Some (True, cf2)"
    and "f \<noteq> nullFp" "unat a < length (Buckets cf)" "unat b < length (Buckets cf)"
    and "within cf f a b \<or> (e = f \<and> (i = a \<or> i = b))"
  shows "within cf2 f a b"
proof -
  from insert_filter_result[OF assms(1,2), of e] assms(3)
  obtain j where j: "j < 4" "Buckets cf ! unat i ! j = nullFp"
    "Buckets cf2 = (Buckets cf)[unat i := (Buckets cf ! unat i)[j := e]]" by auto
  have l: "j < length (Buckets cf ! unat i)" using wf_shape_nth[OF assms(1,2)] j(1) by simp
  from assms(7) show ?thesis
  proof
    assume "within cf f a b"
    then show ?thesis
      using within_update_keep[of cf f a b "unat i" j cf2 e] j(2,3) assms(4,5,6) by auto
  next
    assume "e = f \<and> (i = a \<or> i = b)"
    then show ?thesis
      using within_update_put[of "unat i" a b cf j cf2 f] assms(2) l j(3) by auto
  qed
qed

lemma reinsert_loop_within:
  assumes "wf_shape cf" "unat i < length (Buckets cf)"
    "nullFp \<notin> set (Buckets cf ! unat i)" "fp \<noteq> nullFp"
    and "f \<noteq> nullFp" "unat a < length (Buckets cf)" "unat b < length (Buckets cf)"
    and "getAltIndex H f a (BucketPow cf) = b" "getAltIndex H f b (BucketPow cf) = a"
    and "within cf f a b \<or> (fp = f \<and> (i = a \<or> i = b))"
    and "reinsert_loop H k cf fp i r = Some (True, cf', r')"
  shows "within cf' f a b"
  using assms
proof (induction k arbitrary: cf fp i r)
  case 0
  then show ?case by simp
next
  case (Suc k)
  from reinsert_loop_step[OF Suc.prems(1-4), of H k r]
  obtain j e cf1 i1 r1 where s: "j < 4" "e = Buckets cf ! unat i ! j" "e \<noteq> nullFp"
    "cf1 = cf\<lparr>Buckets := (Buckets cf)[unat i := (Buckets cf ! unat i)[j := fp]]\<rparr>"
    "i1 = getAltIndex H e i (BucketPow cf)"
    "wf_shape cf1" "unat i1 < length (Buckets cf1)"
    and alt: "(\<exists>cf2. insert_filter cf1 e i1 = Some (True, cf2) \<and>
             reinsert_loop H (Suc k) cf fp i r = Some (True, cf2, r1)) \<or>
      (insert_filter cf1 e i1 = Some (False, cf1) \<and>
       nullFp \<notin> set (Buckets cf1 ! unat i1) \<and>
       reinsert_loop H (Suc k) cf fp i r = reinsert_loop H k cf1 e i1 r1)"
    by blast
  have b1: "Buckets cf1 = (Buckets cf)[unat i := (Buckets cf ! unat i)[j := fp]]"
    and bp: "BucketPow cf1 = BucketPow cf" using s(4) by simp_all
  have len: "length (Buckets cf1) = length (Buckets cf)" using b1 by simp
  have l: "j < length (Buckets cf ! unat i)"
    using wf_shape_nth[OF Suc.prems(1,2)] s(1) by simp
  have A: "within cf1 f a b \<or> (e = f \<and> (i1 = a \<or> i1 = b))"
  proof (cases "fp = f \<and> (i = a \<or> i = b)")
    case True
    then have "within cf1 f a b"
      using within_update_put[of "unat i" a b cf j cf1 f] Suc.prems(2) l b1 by auto
    then show ?thesis by simp
  next
    case False
    then have w: "within cf f a b" using Suc.prems(10) by blast
    show ?thesis
    proof (cases "e = f \<and> (i = a \<or> i = b)")
      case True
      then have "i1 = a \<or> i1 = b" using s(5) Suc.prems(8,9) by auto
      then show ?thesis using True by simp
    next
      case False
      then have "Buckets cf ! unat i ! j \<noteq> f \<or> (unat i \<noteq> unat a \<and> unat i \<noteq> unat b)"
        using s(2) by (auto simp: word_unat_eq_iff)
      then have "within cf1 f a b"
        using within_update_keep[OF w _ b1 Suc.prems(6,7)] by simp
      then show ?thesis by simp
    qed
  qed
  from alt show ?case
  proof
    assume "\<exists>cf2. insert_filter cf1 e i1 = Some (True, cf2) \<and>
             reinsert_loop H (Suc k) cf fp i r = Some (True, cf2, r1)"
    then obtain cf2 where cf2: "insert_filter cf1 e i1 = Some (True, cf2)"
      "reinsert_loop H (Suc k) cf fp i r = Some (True, cf2, r1)" by blast
    then have "cf' = cf2" using Suc.prems(11) by simp
    then show ?thesis
      using insert_filter_within[OF s(6,7) cf2(1) Suc.prems(5), of a b] A Suc.prems(6,7) len
      by simp
  next
    assume a: "insert_filter cf1 e i1 = Some (False, cf1) \<and>
       nullFp \<notin> set (Buckets cf1 ! unat i1) \<and>
       reinsert_loop H (Suc k) cf fp i r = reinsert_loop H k cf1 e i1 r1"
    then have rec: "reinsert_loop H k cf1 e i1 r1 = Some (True, cf', r')"
      using Suc.prems(11) by simp
    show ?thesis
      using Suc.IH[OF s(6,7) _ s(3) Suc.prems(5) _ _ _ _ A rec] a Suc.prems(6,7,8,9) len bp
      by simp
  qed
qed

lemma Insert_cases:
  assumes "wf_shape cf" "getIndexAndFingerprint H d (BucketPow cf) = (i1, fp)"
  shows "(\<exists>cf1. insert_filter cf fp i1 = Some (True, cf1) \<and> Insert H cf d r = Some (True, cf1, r)) \<or>
     (\<exists>cf2. insert_filter cf fp (getAltIndex H fp i1 (BucketPow cf)) = Some (True, cf2) \<and>
            Insert H cf d r = Some (True, cf2, r)) \<or>
     (\<exists>i r1. (i = i1 \<or> i = getAltIndex H fp i1 (BucketPow cf)) \<and>
            nullFp \<notin> set (Buckets cf ! unat i) \<and>
            Insert H cf d r = reinsert_loop H maxCuckooCount cf fp i r1)"
proof -
  from getIndex_range[OF assms] have r1: "unat i1 < length (Buckets cf)" by simp
  let ?i2 = "getAltIndex H fp i1 (BucketPow cf)"
  have r2: "unat ?i2 < length (Buckets cf)" using assms(1) by (rule getAltIndex_range)
  from insert_filter_result[OF assms(1) r1, of fp] obtain ok1 cf1 where
    i1: "insert_filter cf fp i1 = Some (ok1, cf1)"
    "\<not> ok1 \<longrightarrow> cf1 = cf \<and> nullFp \<notin> set (Buckets cf ! unat i1)" by blast
  show ?thesis
  proof (cases ok1)
    case True
    then have "Insert H cf d r = Some (True, cf1, r)" using assms(2) i1(1) by (simp add: Insert_def)
    then show ?thesis using i1(1) True by (intro disjI1 exI[of _ cf1]) simp
  next
    case f1: False
    then have e1: "cf1 = cf" and full1: "nullFp \<notin> set (Buckets cf ! unat i1)"
      using i1(2) by simp_all
    from insert_filter_result[OF assms(1) r2, of fp] obtain ok2 cf2 where
      i2: "insert_filter cf fp ?i2 = Some (ok2, cf2)"
      "\<not> ok2 \<longrightarrow> cf2 = cf \<and> nullFp \<notin> set (Buckets cf ! unat ?i2)" by blast
    show ?thesis
    proof (cases ok2)
      case True
      then have "Insert H cf d r = Some (True, cf2, r)"
        using assms(2) i1(1) f1 e1 i2(1) by (simp add: Insert_def)
      then show ?thesis using i2(1) True by (intro disjI2 disjI1 exI[of _ cf2]) simp
    next
      case f2: False
      then have e2: "cf2 = cf" and full2: "nullFp \<notin> set (Buckets cf ! unat ?i2)"
        using i2(2) by simp_all
      let ?i = "fst (randi r i1 ?i2)" and ?r1 = "snd (randi r i1 ?i2)"
      have c: "?i = i1 \<or> ?i = ?i2" by (simp add: randi_def split_beta)
      then have fulli: "nullFp \<notin> set (Buckets cf ! unat ?i)" using full1 full2 by auto
      have "Insert H cf d r = reinsert_loop H maxCuckooCount cf fp ?i ?r1"
        using assms(2) i1(1) f1 e1 i2(1) f2 e2
        by (simp add: Insert_def reinsert_def split_beta Let_def)
      then show ?thesis using c fulli by (intro disjI2 exI[of _ ?i] exI[of _ ?r1]) simp
    qed
  qed
qed

lemma Insert_within:
  assumes "wf_shape cf" "getIndexAndFingerprint H d (BucketPow cf) = (i1, fp)"
    and "Insert H cf d r = Some (True, cf', r')"
    and "f \<noteq> nullFp" "unat a < length (Buckets cf)" "unat b < length (Buckets cf)"
    and "getAltIndex H f a (BucketPow cf) = b" "getAltIndex H f b (BucketPow cf) = a"
    and "within cf f a b \<or> (fp = f \<and> (i1 = a \<or> i1 = b))"
  shows "within cf' f a b"
proof -
  from getIndex_range[OF assms(1,2)] have r1: "unat i1 < length (Buckets cf)"
    and nz: "fp \<noteq> nullFp" by simp_all
  let ?i2 = "getAltIndex H fp i1 (BucketPow cf)"
  have r2: "unat ?i2 < length (Buckets cf)" using assms(1) by (rule getAltIndex_range)
  have own: "fp = f \<and> (i1 = a \<or> i1 = b) \<Longrightarrow> ?i2 = a \<or> ?i2 = b"
    using assms(7,8) by auto
  from Insert_cases[OF assms(1,2), of r]
  consider (one) cf1 where "insert_filter cf fp i1 = Some (True, cf1)"
      "Insert H cf d r = Some (True, cf1, r)"
    | (two) cf2 where "insert_filter cf fp ?i2 = Some (True, cf2)"
      "Insert H cf d r = Some (True, cf2, r)"
    | (loop) i r1 where "i = i1 \<or> i = ?i2" "nullFp \<notin> set (Buckets cf ! unat i)"
      "Insert H cf d r = reinsert_loop H maxCuckooCount cf fp i r1"
    by blast
  then show ?thesis
  proof cases
    case one
    then have "cf' = cf1" using assms(3) by simp
    then show ?thesis
      using insert_filter_within[OF assms(1) r1 one(1) assms(4,5,6)] assms(9) by blast
  next
    case two
    then have "cf' = cf2" using assms(3) by simp
    moreover have "within cf f a b \<or> (fp = f \<and> (?i2 = a \<or> ?i2 = b))"
      using assms(9) own by blast
    ultimately show ?thesis
      using insert_filter_within[OF assms(1) r2 two(1) assms(4,5,6)] by blast
  next
    case loop
    then have ri: "unat i < length (Buckets cf)" using r1 r2 by auto
    have st: "within cf f a b \<or> (fp = f \<and> (i = a \<or> i = b))"
      using assms(9) own loop(1) by blast
    have rec: "reinsert_loop H maxCuckooCount cf fp i r1 = Some (True, cf', r')"
      using loop(3) assms(3) by simp
    show ?thesis
      using reinsert_loop_within[OF assms(1) ri loop(2) nz assms(4,5,6,7,8) st rec] .
  qed
qed

lemma Delete_within:
  assumes "wf_shape cf" "getIndexAndFingerprint H x (BucketPow cf) = (j1, fq)"
    and "Delete H cf x = Some (ok, cf')"
    and "unat a < length (Buckets cf)" "unat b < length (Buckets cf)"
    and "getAltIndex H f a (BucketPow cf) = b" "getAltIndex H f b (BucketPow cf) = a"
    and "within cf f a b"
    and "\<not> ok \<or> \<not> (fq = f \<and> (j1 = a \<or> j1 = b))"
  shows "within cf' f a b"
proof (cases ok)
  case False
  then have "cf' = cf" using Delete_result[OF assms(1,2)] assms(3) by auto
  then show ?thesis using assms(8) by simp
next
  case True
  let ?j2 = "getAltIndex H fq j1 (BucketPow cf)"
  from getIndex_range[OF assms(1,2)] have m: "j1 AND mask (BucketPow cf) = j1" by simp
  from Delete_result[OF assms(1,2)] assms(3) True
  obtain i j where ij: "i = j1 \<or> i = ?j2" "Buckets cf ! unat i ! j = fq"
    "Buckets cf' = (Buckets cf)[unat i := (Buckets cf ! unat i)[j := nullFp]]" by auto
  have "Buckets cf ! unat i ! j \<noteq> f \<or> (unat i \<noteq> unat a \<and> unat i \<noteq> unat b)"
  proof (cases "fq = f")
    case False
    then show ?thesis using ij(2) by simp
  next
    case eq: True
    then have n1: "j1 \<noteq> a" "j1 \<noteq> b" using assms(9) True by auto
    have rt: "getAltIndex H f ?j2 (BucketPow cf) = j1"
      using eq m by (simp add: getAltIndex_twice)
    have "?j2 \<noteq> a" using rt assms(6) n1(2) eq by auto
    moreover have "?j2 \<noteq> b" using rt assms(7) n1(1) eq by auto
    ultimately have "i \<noteq> a \<and> i \<noteq> b" using ij(1) n1 by auto
    then show ?thesis by (simp add: word_unat_eq_iff)
  qed
  then show ?thesis using within_update_keep[OF assms(8) _ ij(3) assms(4,5)] by simp
qed

lemma present_within:
  "getIndexAndFingerprint H d (BucketPow cf) = (i1, fp) \<Longrightarrow>
   present H cf d = within cf fp i1 (getAltIndex H fp i1 (BucketPow cf))"
  by (simp add: present_def within_def)

lemma candidates_closed:
  assumes "wf_shape cf" "getIndexAndFingerprint H d (BucketPow cf) = (i1, fp)"
  shows "getAltIndex H fp (getAltIndex H fp i1 (BucketPow cf)) (BucketPow cf) = i1"
  using getIndex_range[OF assms] by (simp add: getAltIndex_twice)

lemma Insert_keeps_present:
  assumes "wf_shape cf" "Insert H cf x r = Some (True, cf', r')"
    and "present H cf d \<or> x = d"
  shows "present H cf' d"
proof -
  obtain i1 fp where g: "getIndexAndFingerprint H d (BucketPow cf) = (i1, fp)"
    by (cases "getIndexAndFingerprint H d (BucketPow cf)")
  obtain j1 fq where gx: "getIndexAndFingerprint H x (BucketPow cf) = (j1, fq)"
    by (cases "getIndexAndFingerprint H x (BucketPow cf)")
  let ?i2 = "getAltIndex H fp i1 (BucketPow cf)"
  from getIndex_range[OF assms(1) g] have r1: "unat i1 < length (Buckets cf)"
    and nz: "fp \<noteq> nullFp" by simp_all
  have r2: "unat ?i2 < length (Buckets cf)" using assms(1) by (rule getAltIndex_range)
  have bp: "BucketPow cf' = BucketPow cf"
    using Insert_result[OF assms(1), of H x r] assms(2) by auto
  have st: "within cf fp i1 ?i2 \<or> (fq = fp \<and> (j1 = i1 \<or> j1 = ?i2))"
    using assms(3) g gx by (auto simp: present_within)
  have "within cf' fp i1 ?i2"
    using Insert_within[OF assms(1) gx assms(2) nz r1 r2 refl candidates_closed[OF assms(1) g] st] .
  then show ?thesis using g bp by (simp add: present_within)
qed

lemma Delete_keeps_present:
  assumes "wf_shape cf" "Delete H cf x = Some (ok, cf')" "present H cf d"
    and "\<not> ok \<or> \<not> collides H (BucketPow cf) d x"
  shows "present H cf' d"
proof -
  obtain i1 fp where g: "getIndexAndFingerprint H d (BucketPow cf) = (i1, fp)"
    by (cases "getIndexAndFingerprint H d (BucketPow cf)")
  obtain j1 fq where gx: "getIndexAndFingerprint H x (BucketPow cf) = (j1, fq)"
    by (cases "getIndexAndFingerprint H x (BucketPow cf)")
  let ?i2 = "getAltIndex H fp i1 (BucketPow cf)"
  from getIndex_range[OF assms(1) g] have r1: "unat i1 < length (Buckets cf)" by simp
  have r2: "unat ?i2 < length (Buckets cf)" using assms(1) by (rule getAltIndex_range)
  have bp: "BucketPow cf' = BucketPow cf"
    using Delete_result[OF assms(1) gx] assms(2) by auto
  have w: "within cf fp i1 ?i2" using assms(3) g by (simp add: present_within)
  have c: "\<not> ok \<or> \<not> (fq = fp \<and> (j1 = i1 \<or> j1 = ?i2))"
    using assms(4) g gx by (simp add: collides_def)
  have "within cf' fp i1 ?i2"
    using Delete_within[OF assms(1) gx assms(2) r1 r2 refl candidates_closed[OF assms(1) g] w c] .
  then show ?thesis using g bp by (simp add: present_within)
qed

lemma call_keeps_present:
  assumes "wf_filter cf" "apply_call H c cf r = Some (ok, cf', r')"
    and "keeps H d c cf ok cf'" "present H cf d"
  shows "present H cf' d"
proof -
  have w: "wf_shape cf" using assms(1) by (simp add: wf_filter_def)
  have w': "wf_shape cf'" using apply_call_wf[OF assms(1,2)] by (simp add: wf_filter_def)
  have look: "Lookup H cf' d = Some True \<Longrightarrow> present H cf' d"
    using Lookup_present[OF w', of H d] by simp
  show ?thesis
  proof (cases c)
    case (CallInsert x)
    show ?thesis
    proof (cases ok)
      case True
      then show ?thesis
        using Insert_keeps_present[OF w, of H x r cf' r' d] assms(2,4) CallInsert by simp
    next
      case False
      then show ?thesis using assms(3) CallInsert look by simp
    qed
  next
    case (CallInsertUnique x)
    show ?thesis
    proof (cases ok)
      case True
      then have "Insert H cf x r = Some (True, cf', r')"
        using assms(2) CallInsertUnique Lookup_present[OF w, of H x]
        by (simp add: InsertUnique_def split: if_splits)
      then show ?thesis using Insert_keeps_present[OF w _ disjI1[OF assms(4)]] by blast
    next
      case False
      then show ?thesis using assms(3) CallInsertUnique look by simp
    qed
  next
    case (CallDelete x)
    then obtain ok1 where d: "Delete H cf x = Some (ok1, cf')" and e: "ok1 = ok"
      using assms(2) by (auto split: option.splits)
    show ?thesis
      using Delete_keeps_present[OF w d assms(4)] assms(3) CallDelete e by simp
  next
    case CallReset
    then show ?thesis using assms(3) by simp
  qed
qed

lemma survives_present:
  "survives H d cf cf' \<Longrightarrow> wf_filter cf \<Longrightarrow> present H cf d \<Longrightarrow>
   wf_filter cf' \<and> present H cf' d"
proof (induction rule: survives.induct)
  case (survives_refl cf)
  then show ?case by simp
next
  case (survives_call cf cf1 c r ok cf2 r')
  then have a: "wf_filter cf1" "present H cf1 d" by simp_all
  show ?case
    using apply_call_wf[OF a(1) survives_call(2)]
      call_keeps_present[OF a(1) survives_call(2,3) a(2)] by simp
qed

section \<open>No false negatives\<close>

text \<open>
  Claim C1, as amended: if \<open>Insert d\<close> returns true on a reachable filter, then \<open>Lookup d\<close>
  returns true on the filter it leaves, and on the filter left by any further sequence
  of calls that contains no \<open>Reset\<close>, in which every \<open>Delete\<close> that returns true is for an
  input that does not collide with \<open>d\<close> (another fingerprint, or a primary bucket that
  is not a candidate bucket of \<open>d\<close>), and in which every \<open>Insert\<close> or \<open>InsertUnique\<close> that
  returns false has left the fingerprint of \<open>d\<close> in place.
\<close>

theorem no_false_negatives:
  "reachable H cf \<Longrightarrow> Insert H cf d r = Some (True, cf1, r1) \<Longrightarrow> survives H d cf1 cf2 \<Longrightarrow>
   Lookup H cf1 d = Some True \<and> Lookup H cf2 d = Some True"
proof -
  assume r: "reachable H cf" and i: "Insert H cf d r = Some (True, cf1, r1)"
    and s: "survives H d cf1 cf2"
  from r have wf: "wf_filter cf" by (rule reachable_wf)
  then have w: "wf_shape cf" by (simp add: wf_filter_def)
  have wf1: "wf_filter cf1" using Insert_wf[OF wf i] by simp
  have p1: "present H cf1 d" using Insert_keeps_present[OF w i] by simp
  from survives_present[OF s wf1 p1] have wf2: "wf_filter cf2" and p2: "present H cf2 d"
    by simp_all
  show ?thesis
    using p1 p2 wf1 wf2 Lookup_present[of cf1 H d] Lookup_present[of cf2 H d]
    by (simp add: wf_filter_def)
qed

lemma example_delete2:
  "Delete exampleHashes \<lparr>Buckets = [[1, 2, 3, 0]], Count = 3, BucketPow = 0\<rparr> [2] =
     Some (True, \<lparr>Buckets = [[1, 0, 3, 0]], Count = 2, BucketPow = 0\<rparr>)"
  by (simp add: Delete_def delete_filter_def bucket_at_def example_index example_alt
      nullFp_def Let_def)

lemma example_survives:
  "survives exampleHashes [1] \<lparr>Buckets = [[1, 0, 0, 0]], Count = 1, BucketPow = 0\<rparr>
     \<lparr>Buckets = [[1, 0, 3, 0]], Count = 2, BucketPow = 0\<rparr>"
proof -
  let ?A = "\<lparr>Buckets = [[1, 0, 0, 0]], Count = 1, BucketPow = 0\<rparr> :: Filter"
  let ?B = "\<lparr>Buckets = [[1, 2, 0, 0]], Count = 2, BucketPow = 0\<rparr> :: Filter"
  let ?C = "\<lparr>Buckets = [[1, 2, 3, 0]], Count = 3, BucketPow = 0\<rparr> :: Filter"
  let ?D = "\<lparr>Buckets = [[1, 0, 3, 0]], Count = 2, BucketPow = 0\<rparr> :: Filter"
  have a: "survives exampleHashes [1] ?A ?A" by (rule survives_refl)
  have b: "survives exampleHashes [1] ?A ?B"
    by (rule survives_call[OF a, of "CallInsert [2]" exampleRng True _ exampleRng])
       (simp_all add: example_insert2)
  have c: "survives exampleHashes [1] ?A ?C"
    by (rule survives_call[OF b, of "CallInsert [3]" exampleRng True _ exampleRng])
       (simp_all add: example_insert3)
  have nc: "\<not> collides exampleHashes 0 [1] [2]"
    by (simp add: collides_def example_index)
  show "survives exampleHashes [1] ?A ?D"
    by (rule survives_call[OF c, of "CallDelete [2]" exampleRng True _ exampleRng])
       (simp_all add: example_delete2 nc)
qed

theorem no_false_negatives_witness:
  "NewFilter 4 = Some \<lparr>Buckets = [[0, 0, 0, 0]], Count = 0, BucketPow = 0\<rparr> \<and>
   reachable exampleHashes \<lparr>Buckets = [[0, 0, 0, 0]], Count = 0, BucketPow = 0\<rparr> \<and>
   Insert exampleHashes \<lparr>Buckets = [[0, 0, 0, 0]], Count = 0, BucketPow = 0\<rparr> [1] exampleRng =
     Some (True, \<lparr>Buckets = [[1, 0, 0, 0]], Count = 1, BucketPow = 0\<rparr>, exampleRng) \<and>
   survives exampleHashes [1] \<lparr>Buckets = [[1, 0, 0, 0]], Count = 1, BucketPow = 0\<rparr>
     \<lparr>Buckets = [[1, 0, 3, 0]], Count = 2, BucketPow = 0\<rparr> \<and>
   Lookup exampleHashes \<lparr>Buckets = [[1, 0, 0, 0]], Count = 1, BucketPow = 0\<rparr> [1] = Some True \<and>
   Lookup exampleHashes \<lparr>Buckets = [[1, 0, 3, 0]], Count = 2, BucketPow = 0\<rparr> [1] = Some True"
  by (intro conjI NewFilter_4 reachable_empty example_insert1 example_survives
      no_false_negatives[OF reachable_empty example_insert1 example_survives, THEN conjunct1]
      no_false_negatives[OF reachable_empty example_insert1 example_survives, THEN conjunct2])

theorem false_negative_after_Reset_or_colliding_Delete:
  "NewFilter 4 = Some \<lparr>Buckets = [[0, 0, 0, 0]], Count = 0, BucketPow = 0\<rparr> \<and>
   reachable exampleHashes \<lparr>Buckets = [[0, 0, 0, 0]], Count = 0, BucketPow = 0\<rparr> \<and>
   Insert exampleHashes \<lparr>Buckets = [[0, 0, 0, 0]], Count = 0, BucketPow = 0\<rparr> [1] exampleRng =
     Some (True, \<lparr>Buckets = [[1, 0, 0, 0]], Count = 1, BucketPow = 0\<rparr>, exampleRng) \<and>
   Lookup exampleHashes
     (Reset \<lparr>Buckets = [[1, 0, 0, 0]], Count = 1, BucketPow = 0\<rparr>) [1] = Some False \<and>
   Delete exampleHashes \<lparr>Buckets = [[1, 0, 0, 0]], Count = 1, BucketPow = 0\<rparr> [1, 7] =
     Some (True, \<lparr>Buckets = [[0, 0, 0, 0]], Count = 0, BucketPow = 0\<rparr>) \<and>
   Lookup exampleHashes \<lparr>Buckets = [[0, 0, 0, 0]], Count = 0, BucketPow = 0\<rparr> [1] = Some False"
proof -
  have l1: "Lookup exampleHashes
     (Reset \<lparr>Buckets = [[1, 0, 0, 0]], Count = 1, BucketPow = 0\<rparr>) [1] = Some False"
    by (simp add: Lookup_def Reset_def reset_bucket_def bucket_at_def example_index example_alt
        nullFp_def Let_def)
  have d: "Delete exampleHashes \<lparr>Buckets = [[1, 0, 0, 0]], Count = 1, BucketPow = 0\<rparr> [1, 7] =
     Some (True, \<lparr>Buckets = [[0, 0, 0, 0]], Count = 0, BucketPow = 0\<rparr>)"
    by (simp add: Delete_def delete_filter_def bucket_at_def example_index example_alt
        nullFp_def Let_def)
  have l2: "Lookup exampleHashes \<lparr>Buckets = [[0, 0, 0, 0]], Count = 0, BucketPow = 0\<rparr> [1] =
      Some False"
    by (simp add: Lookup_def bucket_at_def example_index example_alt nullFp_def Let_def)
  show ?thesis by (intro conjI NewFilter_4 reachable_empty example_insert1 l1 d l2)
qed

end
